theory Spec2Isabelle
  imports Main "HOL-Library.Word"
begin

unbundle bit_operations_syntax

section \<open>Machine types and the net/netip values the package consumes\<close>

type_synonym u8 = "8 word"
type_synonym u32 = "32 word"

text \<open>
  A \<open>netip.Addr\<close> is either an IPv4 address (\<open>AsSlice\<close> gives 4 bytes, \<open>Is6\<close> is false) or an
  IPv6 address (\<open>AsSlice\<close> gives 16 bytes, \<open>Is6\<close> is true, also for the IPv4-mapped form
  \<open>::ffff:a.b.c.d\<close>).  The byte slice is kept as a list; the package only ever iterates over
  it, so the functions below are defined for every length.  A \<open>netip.Prefix\<close> is an address
  and a bit count; \<open>Bits\<close> is \<open>-1\<close> for an invalid prefix.
\<close>

datatype Addr = Addr4 "u8 list" | Addr6 "u8 list"

fun Is6 :: "Addr \<Rightarrow> bool" where
  "Is6 (Addr4 bs) = False"
| "Is6 (Addr6 bs) = True"

fun AsSlice :: "Addr \<Rightarrow> u8 list" where
  "AsSlice (Addr4 bs) = bs"
| "AsSlice (Addr6 bs) = bs"

datatype Prefix = PrefixFrom Addr int

fun Prefix_Addr :: "Prefix \<Rightarrow> Addr" where
  "Prefix_Addr (PrefixFrom a n) = a"

fun Prefix_Bits :: "Prefix \<Rightarrow> int" where
  "Prefix_Bits (PrefixFrom a n) = n"



text \<open>Go strings are byte sequences; \<open>[]byte(s)\<close> and \<open>string(bs)\<close> convert.\<close>

definition bytes_of_string :: "string \<Rightarrow> u8 list" where
  "bytes_of_string s = map (\<lambda>c. of_nat (of_char c)) s"

definition string_of_bytes :: "u8 list \<Rightarrow> string" where
  "string_of_bytes bs = map (\<lambda>b. char_of (unat b)) bs"

section \<open>Constants and the slot codec\<close>

datatype proto = v4LPM | v6LPM

definition blockRefMask :: u32 where "blockRefMask = 0xC0000000"
definition blockIndexMask :: u32 where "blockIndexMask = 0x3FFFFFFF"
definition prefixLenShift :: nat where "prefixLenShift = 24"
definition valueIndexMask :: u32 where "valueIndexMask = 0x00FFFFFF"
definition blockSize :: nat where "blockSize = 256"
definition magicNumber :: u32 where "magicNumber = 0x4C504D00"
definition currentVersion :: u32 where "currentVersion = 1"

text \<open>
  Indices are Go \<open>int\<close>s that are never negative: they are naturals here, and
  \<open>uint32(i)\<close> is \<open>of_nat i\<close>, which drops the bits above the 32nd.  A prefix length is an
  \<open>int\<close> because \<open>decodeValue\<close> can produce \<open>-1\<close>.
\<close>

definition encodeValue :: "nat \<Rightarrow> int \<Rightarrow> u32" where
  "encodeValue valueIdx prefixLen =
     push_bit prefixLenShift (word_of_int (prefixLen + 1)) OR of_nat valueIdx"

definition encodeBlockRef :: "nat \<Rightarrow> u32" where
  "encodeBlockRef blockIdx = blockRefMask OR of_nat blockIdx"

definition decodeValue :: "u32 \<Rightarrow> nat \<times> int" where
  "decodeValue encoded =
     (unat (encoded AND valueIndexMask), uint (drop_bit prefixLenShift encoded) - 1)"

definition decodeBlockRef :: "u32 \<Rightarrow> nat" where
  "decodeBlockRef encoded = unat (encoded AND blockIndexMask)"

definition isBlockRef :: "u32 \<Rightarrow> bool" where
  "isBlockRef encoded = (encoded AND blockRefMask = blockRefMask)"

definition isInvalid :: "u32 \<Rightarrow> bool" where
  "isInvalid encoded = (encoded = 0)"

section \<open>The trie\<close>

text \<open>
  \<open>LPMBlock\<close> is \<open>[256]uint32\<close> and is only ever indexed by a \<open>uint8\<close>: a total function
  from bytes to slots.
\<close>

type_synonym LPMBlock = "u8 \<Rightarrow> u32"

text \<open>
  The shared tier lives in the caller's buffer: \<open>shared[p]\<close> and \<open>sharedValues\<close> are slices
  into the backing array of the \<open>storage\<close> argument of \<open>NewWithSharedStorage\<close>, and a
  store through one of them is seen through every other that covers the same bytes.  The
  backing array is a memory from offsets to bytes (\<open>backing\<close>); blocks are read and written
  through pointer casts, hence in the byte order of the machine, which is little-endian,
  as the image format fixes it.
\<close>

definition le32 :: "u32 \<Rightarrow> u8 list" where
  "le32 w = [ucast w, ucast (drop_bit 8 w), ucast (drop_bit 16 w), ucast (drop_bit 24 w)]"

definition load32 :: "(nat \<Rightarrow> u8) \<Rightarrow> nat \<Rightarrow> u32" where
  "load32 mem a =
     ucast (mem a) OR push_bit 8 (ucast (mem (a + 1)))
       OR push_bit 16 (ucast (mem (a + 2))) OR push_bit 24 (ucast (mem (a + 3)))"

definition store32 :: "(nat \<Rightarrow> u8) \<Rightarrow> nat \<Rightarrow> u32 \<Rightarrow> (nat \<Rightarrow> u8)" where
  "store32 mem a w = (\<lambda>x. if a \<le> x \<and> x < a + 4 then le32 w ! (x - a) else mem x)"

definition loadBlock :: "(nat \<Rightarrow> u8) \<Rightarrow> nat \<Rightarrow> LPMBlock" where
  "loadBlock mem a = (\<lambda>slot. load32 mem (a + 4 * unat slot))"

definition storeBlock :: "(nat \<Rightarrow> u8) \<Rightarrow> nat \<Rightarrow> LPMBlock \<Rightarrow> (nat \<Rightarrow> u8)" where
  "storeBlock mem a blk =
     (\<lambda>x. if a \<le> x \<and> x < a + blockSize * 4
          then le32 (blk (of_nat ((x - a) div 4))) ! ((x - a) mod 4) else mem x)"

text \<open>
  The slice \<open>shared[p]\<close> is its place in the backing array (\<open>sharedBase\<close>) and its length
  in blocks (\<open>sharedCount\<close>); \<open>sharedValues\<close> is its place (\<open>valuesBase\<close>), its length
  and its capacity in bytes, up to which a Go slice expression may reach.  A nil slice has
  length 0: the only assignment to \<open>sharedValues\<close> stores a slice of positive length.  The
  two-element arrays \<open>shared\<close> and \<open>dynamic\<close> are functions of the family; the blocks of
  the dynamic tier are allocated one by one and share no memory.
\<close>

record LPM =
  backing :: "nat \<Rightarrow> u8"
  sharedBase :: "proto \<Rightarrow> nat"
  sharedCount :: "proto \<Rightarrow> nat"
  valuesBase :: nat
  valuesLen :: nat
  valuesCap :: nat
  sharedValuesSlotSize :: nat
  sharedValueCount :: nat
  dynamic :: "proto \<Rightarrow> LPMBlock list"
  valuesMap :: "string \<rightharpoonup> nat"
  revValues :: "string list"

text \<open>What the slices hold: the blocks of \<open>shared[p]\<close>, the bytes of \<open>sharedValues\<close> up to
  its length, and the bytes between its length and its capacity.\<close>

definition shared :: "LPM \<Rightarrow> proto \<Rightarrow> LPMBlock list" where
  "shared m pr =
     map (\<lambda>i. loadBlock (backing m) (sharedBase m pr + i * (blockSize * 4))) [0..<sharedCount m pr]"

definition sharedValues :: "LPM \<Rightarrow> u8 list" where
  "sharedValues m = map (backing m) [valuesBase m ..< valuesBase m + valuesLen m]"

definition sharedValuesCap :: "LPM \<Rightarrow> u8 list" where
  "sharedValuesCap m = map (backing m) [valuesBase m + valuesLen m ..< valuesBase m + valuesCap m]"

definition New :: LPM where
  "New = \<lparr> backing = (\<lambda>a. 0), sharedBase = (\<lambda>p. 0), sharedCount = (\<lambda>p. 0),
           valuesBase = 0, valuesLen = 0, valuesCap = 0,
           sharedValuesSlotSize = 0, sharedValueCount = 0,
           dynamic = (\<lambda>p. [\<lambda>i. 0]), valuesMap = Map.empty, revValues = [] \<rparr>"

definition blockWithValue :: "u32 \<Rightarrow> LPMBlock" where
  "blockWithValue initValue = (if isInvalid initValue then (\<lambda>idx. 0) else (\<lambda>idx. initValue))"

definition addValue :: "LPM \<Rightarrow> string \<Rightarrow> LPM \<times> nat" where
  "addValue m val =
     (case valuesMap m val of
        Some valueIdx \<Rightarrow> (m, valueIdx)
      | None \<Rightarrow>
          (let valueIdx = sharedValueCount m + length (revValues m)
           in (m\<lparr> valuesMap := (valuesMap m)(val \<mapsto> valueIdx),
                   revValues := revValues m @ [val] \<rparr>, valueIdx)))"

definition getValueByIndex :: "LPM \<Rightarrow> nat \<Rightarrow> string \<times> bool" where
  "getValueByIndex m valueIdx =
     (if valueIdx < sharedValueCount m then
        (if sharedValues m = [] \<or> sharedValuesSlotSize m = 0 then ('''', False)
         else
           (let offset = valueIdx * sharedValuesSlotSize m in
            if offset + sharedValuesSlotSize m > length (sharedValues m) then ('''', False)
            else
              (let strLen = unat (sharedValues m ! offset) in
               if strLen = 0 \<or> offset + 1 + strLen > length (sharedValues m) then ('''', False)
               else (string_of_bytes (take strLen (drop (offset + 1) (sharedValues m))), True))))
      else
        (let dynamicIdx = valueIdx - sharedValueCount m in
         if dynamicIdx \<ge> length (revValues m) then ('''', False)
         else (revValues m ! dynamicIdx, True)))"

text \<open>
  An index outside the dynamic tier makes the Go runtime panic; \<open>None\<close> is that panic.
  \<open>getBlockRef\<close> returns a pointer in the source; \<open>putBlockRef\<close> is the store through it.
  A store into a block of the shared tier is a store into the backing array.
\<close>

definition getBlockRef :: "LPM \<Rightarrow> proto \<Rightarrow> nat \<Rightarrow> LPMBlock option" where
  "getBlockRef m pr blockIdx =
     (let sharedLen = length (shared m pr) in
      if blockIdx < sharedLen then Some (shared m pr ! blockIdx)
      else if blockIdx - sharedLen < length (dynamic m pr)
           then Some (dynamic m pr ! (blockIdx - sharedLen))
      else None)"

definition putBlockRef :: "LPM \<Rightarrow> proto \<Rightarrow> nat \<Rightarrow> LPMBlock \<Rightarrow> LPM option" where
  "putBlockRef m pr blockIdx blk =
     (let sharedLen = length (shared m pr) in
      if blockIdx < sharedLen
        then Some (m\<lparr> backing :=
               storeBlock (backing m) (sharedBase m pr + blockIdx * (blockSize * 4)) blk \<rparr>)
      else if blockIdx - sharedLen < length (dynamic m pr)
        then Some (m\<lparr> dynamic := (dynamic m)(pr := (dynamic m pr)[blockIdx - sharedLen := blk]) \<rparr>)
      else None)"

definition getValue :: "LPM \<Rightarrow> proto \<Rightarrow> nat \<Rightarrow> u8 \<Rightarrow> u32 option" where
  "getValue m pr block slot =
     (let sharedLen = length (shared m pr) in
      if block < sharedLen then Some ((shared m pr ! block) slot)
      else if block - sharedLen < length (dynamic m pr)
           then Some ((dynamic m pr ! (block - sharedLen)) slot)
      else None)"

definition setValue :: "LPM \<Rightarrow> proto \<Rightarrow> nat \<Rightarrow> u8 \<Rightarrow> u32 \<Rightarrow> LPM option" where
  "setValue m pr block slot v =
     (let sharedLen = length (shared m pr) in
      if block < sharedLen
        then Some (m\<lparr> backing :=
               store32 (backing m) (sharedBase m pr + block * (blockSize * 4) + 4 * unat slot) v \<rparr>)
      else if block - sharedLen < length (dynamic m pr)
        then Some (m\<lparr> dynamic := (dynamic m)
               (pr := (dynamic m pr)
                  [block - sharedLen := (dynamic m pr ! (block - sharedLen))(slot := v)]) \<rparr>)
      else None)"

text \<open>One iteration of the loop of \<open>propagateValue\<close>, at slot \<open>inBlockIdx\<close>.\<close>

definition propagateStep :: "LPM \<Rightarrow> proto \<Rightarrow> nat \<Rightarrow> u32 \<Rightarrow> int \<Rightarrow> u8 \<Rightarrow> LPM option" where
  "propagateStep m pr blockIdx newValue prefixLen inBlockIdx =
     (case getValue m pr blockIdx inBlockIdx of
        None \<Rightarrow> None
      | Some currentVal \<Rightarrow>
          if isBlockRef currentVal then
            (let innerBlockIdx = decodeBlockRef currentVal in
             case getBlockRef m pr innerBlockIdx of
               None \<Rightarrow> None
             | Some innerBlockRef \<Rightarrow>
                 putBlockRef m pr innerBlockIdx
                   (\<lambda>idx. if isInvalid (innerBlockRef idx) then newValue else innerBlockRef idx))
          else if isInvalid currentVal then setValue m pr blockIdx inBlockIdx newValue
          else
            (let existingPrefixLen = snd (decodeValue currentVal) in
             if prefixLen \<ge> existingPrefixLen
               then setValue m pr blockIdx inBlockIdx newValue
               else Some m))"

text \<open>The loop itself: \<open>inBlockIdx\<close> runs over the integers from \<open>startIdx\<close> to \<open>endIdx\<close>.\<close>

fun propagateLoop :: "LPM \<Rightarrow> proto \<Rightarrow> nat \<Rightarrow> u32 \<Rightarrow> int \<Rightarrow> nat list \<Rightarrow> LPM option" where
  "propagateLoop m pr blockIdx newValue prefixLen [] = Some m"
| "propagateLoop m pr blockIdx newValue prefixLen (inBlockIdx # rest) =
     (case propagateStep m pr blockIdx newValue prefixLen (of_nat inBlockIdx) of
        None \<Rightarrow> None
      | Some m' \<Rightarrow> propagateLoop m' pr blockIdx newValue prefixLen rest)"

definition propagateValue ::
    "LPM \<Rightarrow> proto \<Rightarrow> nat \<Rightarrow> nat \<Rightarrow> int \<Rightarrow> u8 \<Rightarrow> u8 \<Rightarrow> LPM option" where
  "propagateValue m pr blockIdx valueIdx prefixLen startIdx endIdx =
     propagateLoop m pr blockIdx (encodeValue valueIdx prefixLen) prefixLen
       [unat startIdx ..< Suc (unat endIdx)]"

text \<open>
  The loop of \<open>Insert\<close> over the address bytes; \<open>idx\<close> is the position of the byte at the
  head of the list.  Running off the end of the slice returns, as the source does.
\<close>

fun InsertLoop :: "LPM \<Rightarrow> proto \<Rightarrow> nat \<Rightarrow> int \<Rightarrow> nat \<Rightarrow> nat \<Rightarrow> u8 list \<Rightarrow> LPM option" where
  "InsertLoop m pr valueIdx prefixLen blockIdx idx [] = Some m"
| "InsertLoop m pr valueIdx prefixLen blockIdx idx (inBlockIdx # rest) =
     (let tail = (int idx + 1) * 8 - prefixLen in
      if tail \<ge> 0 then
        (let mask = push_bit (nat tail) (0xff :: u8);
             startIdx = inBlockIdx AND mask;
             endIdx = startIdx OR NOT mask
         in propagateValue m pr blockIdx valueIdx prefixLen startIdx endIdx)
      else
        (case getValue m pr blockIdx inBlockIdx of
           None \<Rightarrow> None
         | Some currentVal \<Rightarrow>
             if isBlockRef currentVal
               then InsertLoop m pr valueIdx prefixLen (decodeBlockRef currentVal) (Suc idx) rest
             else
               (let oldVal = currentVal;
                    newBlockIdx = length (shared m pr) + length (dynamic m pr)
                in case setValue m pr blockIdx inBlockIdx (encodeBlockRef newBlockIdx) of
                     None \<Rightarrow> None
                   | Some m1 \<Rightarrow>
                       (let blk = blockWithValue oldVal;
                            m2 = m1\<lparr> dynamic := (dynamic m1)(pr := dynamic m1 pr @ [blk]) \<rparr>
                        in InsertLoop m2 pr valueIdx prefixLen newBlockIdx (Suc idx) rest))))"

definition Insert :: "LPM \<Rightarrow> Prefix \<Rightarrow> string \<Rightarrow> LPM option" where
  "Insert m net val =
     (let (m1, valueIdx) = addValue m val;
          pr = (if Is6 (Prefix_Addr net) then v6LPM else v4LPM);
          prefixLen = Prefix_Bits net
      in InsertLoop m1 pr valueIdx prefixLen 0 0 (AsSlice (Prefix_Addr net)))"

fun LookupLoop :: "LPM \<Rightarrow> proto \<Rightarrow> nat \<Rightarrow> u8 list \<Rightarrow> (string \<times> bool) option" where
  "LookupLoop m pr blockIdx [] = Some ('''', False)"
| "LookupLoop m pr blockIdx (inBlockIdx # rest) =
     (case getValue m pr blockIdx inBlockIdx of
        None \<Rightarrow> None
      | Some v \<Rightarrow>
          if isBlockRef v then LookupLoop m pr (decodeBlockRef v) rest
          else if isInvalid v then Some ('''', False)
          else Some (getValueByIndex m (fst (decodeValue v))))"

definition Lookup :: "LPM \<Rightarrow> Addr \<Rightarrow> (string \<times> bool) option" where
  "Lookup m addr =
     LookupLoop m (if Is6 addr then v6LPM else v4LPM) 0 (AsSlice addr)"

text \<open>A sequence of insertions, stopping at the first panic.\<close>

fun InsertAll :: "LPM \<Rightarrow> (Prefix \<times> string) list \<Rightarrow> LPM option" where
  "InsertAll m [] = Some m"
| "InsertAll m ((net, val) # rest) =
     (case Insert m net val of None \<Rightarrow> None | Some m' \<Rightarrow> InsertAll m' rest)"

section \<open>The packed image\<close>

datatype error =
    StorageTooSmall | InvalidMagic | UnsupportedVersion
  | BlocksTooSmall proto | ValuesTooSmall | ValueTooLong nat

text \<open>
  What a call does: it returns a value, returns an error, or the runtime panics.
\<close>

datatype 'a result = Ok 'a | Error error | Panic

record StorageHeader =
  Magic :: u32
  Version :: u32
  V4BlockCount :: u32
  V6BlockCount :: u32
  ValueCount :: u32
  ValueSlotSize :: u32
  V4BlocksOffset :: u32
  V6BlocksOffset :: u32
  ValuesOffset :: u32

text \<open>\<open>unsafe.Sizeof(StorageHeader{})\<close>: nine \<open>uint32\<close> fields.\<close>

definition headerSize :: nat where "headerSize = 36"

text \<open>
  The header is read, and the image written, through pointer casts as well; \<open>rd32\<close> reads a
  little-endian word out of a byte slice.
\<close>

definition rd32 :: "u8 list \<Rightarrow> nat \<Rightarrow> u32" where
  "rd32 bs off =
     ucast (bs ! off) OR push_bit 8 (ucast (bs ! (off + 1)))
       OR push_bit 16 (ucast (bs ! (off + 2))) OR push_bit 24 (ucast (bs ! (off + 3)))"

definition readHeader :: "u8 list \<Rightarrow> StorageHeader" where
  "readHeader bs =
     \<lparr> Magic = rd32 bs 0, Version = rd32 bs 4, V4BlockCount = rd32 bs 8,
       V6BlockCount = rd32 bs 12, ValueCount = rd32 bs 16, ValueSlotSize = rd32 bs 20,
       V4BlocksOffset = rd32 bs 24, V6BlocksOffset = rd32 bs 28, ValuesOffset = rd32 bs 32 \<rparr>"

definition headerBytes :: "StorageHeader \<Rightarrow> u8 list" where
  "headerBytes h =
     le32 (Magic h) @ le32 (Version h) @ le32 (V4BlockCount h) @ le32 (V6BlockCount h)
       @ le32 (ValueCount h) @ le32 (ValueSlotSize h) @ le32 (V4BlocksOffset h)
       @ le32 (V6BlocksOffset h) @ le32 (ValuesOffset h)"

definition blockAt :: "u8 list \<Rightarrow> nat \<Rightarrow> LPMBlock" where
  "blockAt bs off = (\<lambda>slot. rd32 bs (off + 4 * unat slot))"

definition blockBytes :: "LPMBlock \<Rightarrow> u8 list" where
  "blockBytes blk = concat (map (\<lambda>i. le32 (blk (of_nat i))) [0..<blockSize])"

text \<open>A Go \<open>int\<close> has 64 bits; \<open>int64\<close> is the value an exact result wraps to.\<close>

definition int64 :: "int \<Rightarrow> int" where
  "int64 x = sint (word_of_int x :: 64 word)"

text \<open>
  The argument is a byte slice: \<open>storage\<close> are its \<open>len(storage)\<close> bytes and \<open>spare\<close> the
  bytes of its backing array between its length and its capacity.  The trie keeps the
  backing array and views it; nothing is copied.
\<close>

definition NewWithSharedStorage :: "u8 list \<Rightarrow> u8 list \<Rightarrow> LPM result" where
  "NewWithSharedStorage storage spare =
     (if length storage < headerSize then Error StorageTooSmall
      else
        (let header = readHeader storage in
         if Magic header \<noteq> magicNumber then Error InvalidMagic
         else if Version header \<noteq> currentVersion then Error UnsupportedVersion
         else
           (let blockByteSize = blockSize * 4;
                v4Required = unat (V4BlocksOffset header) + unat (V4BlockCount header) * blockByteSize;
                v6Required = unat (V6BlocksOffset header) + unat (V6BlockCount header) * blockByteSize;
                valuesEnd = int64 (uint (ValuesOffset header)
                              + int64 (uint (ValueCount header) * uint (ValueSlotSize header)))
            in
            if V4BlockCount header > 0 \<and> length storage < v4Required
              then Error (BlocksTooSmall v4LPM)
            else if V6BlockCount header > 0 \<and> length storage < v6Required
              then Error (BlocksTooSmall v6LPM)
            else if ValueCount header > 0 \<and> ValueSlotSize header > 0
                      \<and> int (length storage) < valuesEnd
              then Error ValuesTooSmall
            else if ValueCount header > 0 \<and> ValueSlotSize header > 0
                      \<and> \<not> (uint (ValuesOffset header) \<le> valuesEnd)
              then Panic
            else
              Ok \<lparr> backing = (\<lambda>a. (storage @ spare) ! a),
                   sharedBase = (\<lambda>p. case p of
                       v4LPM \<Rightarrow> (if V4BlockCount header > 0 then unat (V4BlocksOffset header) else 0)
                     | v6LPM \<Rightarrow> (if V6BlockCount header > 0 then unat (V6BlocksOffset header) else 0)),
                   sharedCount = (\<lambda>p. case p of
                       v4LPM \<Rightarrow> unat (V4BlockCount header)
                     | v6LPM \<Rightarrow> unat (V6BlockCount header)),
                   valuesBase =
                     (if ValueCount header > 0 \<and> ValueSlotSize header > 0
                      then unat (ValuesOffset header) else 0),
                   valuesLen =
                     (if ValueCount header > 0 \<and> ValueSlotSize header > 0
                      then nat valuesEnd - unat (ValuesOffset header) else 0),
                   valuesCap =
                     (if ValueCount header > 0 \<and> ValueSlotSize header > 0
                      then length storage + length spare - unat (ValuesOffset header) else 0),
                   sharedValuesSlotSize = unat (ValueSlotSize header),
                   sharedValueCount = unat (ValueCount header),
                   dynamic = (\<lambda>p. case p of
                       v4LPM \<Rightarrow> (if V4BlockCount header > 0 then [] else [\<lambda>i. 0])
                     | v6LPM \<Rightarrow> (if V6BlockCount header > 0 then [] else [\<lambda>i. 0])),
                   valuesMap = Map.empty,
                   revValues = [] \<rparr>)))"

text \<open>
  \<open>PackToSharedStorage\<close>, first pass: the longest value.  A length byte cannot exceed 255,
  so the first error is never returned; reading a length byte behind the end of
  \<open>sharedValues\<close> panics.
\<close>

fun sharedMaxLen :: "u8 list \<Rightarrow> nat \<Rightarrow> nat list \<Rightarrow> nat \<Rightarrow> nat result" where
  "sharedMaxLen vals slotSize [] maxValueLen = Ok maxValueLen"
| "sharedMaxLen vals slotSize (i # rest) maxValueLen =
     (let offset = i * slotSize in
      if offset \<ge> length vals then Panic
      else
        (let strLen = unat (vals ! offset) in
         if strLen > 255 then Error (ValueTooLong i)
         else sharedMaxLen vals slotSize rest (if strLen > maxValueLen then strLen else maxValueLen)))"

fun dynamicMaxLen :: "string list \<Rightarrow> nat \<Rightarrow> nat \<Rightarrow> nat result" where
  "dynamicMaxLen [] i maxValueLen = Ok maxValueLen"
| "dynamicMaxLen (val # rest) i maxValueLen =
     (if length val > 255 then Error (ValueTooLong i)
      else dynamicMaxLen rest (Suc i) (if length val > maxValueLen then length val else maxValueLen))"

text \<open>
  The slots of the value region, in the order the source writes them.  The buffer comes
  zeroed from \<open>make\<close>, so a slot is its length byte, its payload and zeros.  The payload of
  a shared value is sliced out of \<open>sharedValues\<close> up to its capacity.
\<close>

definition padTo :: "nat \<Rightarrow> u8 list \<Rightarrow> u8 list" where
  "padTo n bs = bs @ replicate (n - length bs) 0"

fun sharedSlots :: "u8 list \<Rightarrow> u8 list \<Rightarrow> nat \<Rightarrow> nat \<Rightarrow> nat list \<Rightarrow> u8 list option" where
  "sharedSlots vals cap slotSize valueSlotSize [] = Some []"
| "sharedSlots vals cap slotSize valueSlotSize (i # rest) =
     (let srcOffset = i * slotSize in
      if srcOffset \<ge> length vals then None
      else
        (let strLen = unat (vals ! srcOffset) in
         if srcOffset + 1 + strLen > length vals + length cap then None
         else
           (case sharedSlots vals cap slotSize valueSlotSize rest of
              None \<Rightarrow> None
            | Some others \<Rightarrow>
                Some (padTo valueSlotSize
                        (of_nat strLen # take strLen (drop (srcOffset + 1) (vals @ cap))) @ others))))"

definition dynamicSlots :: "nat \<Rightarrow> string list \<Rightarrow> u8 list" where
  "dynamicSlots valueSlotSize vals =
     concat (map (\<lambda>val. padTo valueSlotSize (of_nat (length val) # bytes_of_string val)) vals)"

definition PackToSharedStorage :: "LPM \<Rightarrow> u8 list result" where
  "PackToSharedStorage m =
     (case (if sharedValueCount m > 0 \<and> length (sharedValues m) > 0
            then sharedMaxLen (sharedValues m) (sharedValuesSlotSize m) [0..<sharedValueCount m] 0
            else Ok 0) of
        Panic \<Rightarrow> Panic
      | Error e \<Rightarrow> Error e
      | Ok max1 \<Rightarrow>
          (case dynamicMaxLen (revValues m) 0 max1 of
             Panic \<Rightarrow> Panic
           | Error e \<Rightarrow> Error e
           | Ok maxValueLen \<Rightarrow>
               (let blockByteSize = blockSize * 4;
                    valueSlotSize = maxValueLen + 1;
                    v4BlockCount = length (shared m v4LPM) + length (dynamic m v4LPM);
                    v6BlockCount = length (shared m v6LPM) + length (dynamic m v6LPM);
                    valueCount = sharedValueCount m + length (revValues m);
                    v4BlocksOffset = headerSize;
                    v6BlocksOffset = v4BlocksOffset + v4BlockCount * blockByteSize;
                    valuesOffset = v6BlocksOffset + v6BlockCount * blockByteSize;
                    totalSize = valuesOffset + valueCount * valueSlotSize;
                    header = \<lparr> Magic = magicNumber, Version = currentVersion,
                               V4BlockCount = of_nat v4BlockCount, V6BlockCount = of_nat v6BlockCount,
                               ValueCount = of_nat valueCount, ValueSlotSize = of_nat valueSlotSize,
                               V4BlocksOffset = of_nat v4BlocksOffset,
                               V6BlocksOffset = of_nat v6BlocksOffset,
                               ValuesOffset = of_nat valuesOffset \<rparr>;
                    v4Bytes = concat (map blockBytes (shared m v4LPM @ dynamic m v4LPM));
                    v6Bytes = concat (map blockBytes (shared m v6LPM @ dynamic m v6LPM))
                in
                case (if sharedValueCount m > 0 \<and> length (sharedValues m) > 0
                      then sharedSlots (sharedValues m) (sharedValuesCap m) (sharedValuesSlotSize m)
                             valueSlotSize [0..<sharedValueCount m]
                      else Some []) of
                  None \<Rightarrow> Panic
                | Some sharedPart \<Rightarrow>
                    Ok (headerBytes header @ v4Bytes @ v6Bytes
                          @ padTo (valueCount * valueSlotSize)
                              (sharedPart @ dynamicSlots valueSlotSize (revValues m))))))"

definition blocks :: "LPM \<Rightarrow> proto \<Rightarrow> LPMBlock list" where
  "blocks m pr = shared m pr @ dynamic m pr"

definition slot_words :: "LPM \<Rightarrow> proto \<Rightarrow> u32 set" where
  "slot_words m pr = (\<Union>blk \<in> set (blocks m pr). range blk)"

definition valuePart :: "LPM \<Rightarrow> nat \<times> nat \<times> (string \<rightharpoonup> nat) \<times> string list" where
  "valuePart m = (sharedValuesSlotSize m, sharedValueCount m, valuesMap m, revValues m)"

definition layout :: "LPM \<Rightarrow> (proto \<Rightarrow> nat) \<times> (proto \<Rightarrow> nat) \<times> nat \<times> nat \<times> nat" where
  "layout m = (sharedBase m, sharedCount m, valuesBase m, valuesLen m, valuesCap m)"

text \<open>
  What a store into the blocks of family \<open>pr\<close> leaves alone: the layout of the slices, the
  dynamic blocks of the other family, and the bytes of the backing array outside
  \<open>shared[pr]\<close>.
\<close>

definition untouched :: "LPM \<Rightarrow> proto \<Rightarrow> LPM \<Rightarrow> bool" where
  "untouched m pr m' =
     (layout m' = layout m \<and> (\<forall>q. q \<noteq> pr \<longrightarrow> dynamic m' q = dynamic m q)
      \<and> (\<forall>a. a < sharedBase m pr \<or> sharedBase m pr + sharedCount m pr * (blockSize * 4) \<le> a
             \<longrightarrow> backing m' a = backing m a))"

text \<open>
  The blocks of \<open>shared[pr]\<close> overlap neither the blocks of \<open>shared[q]\<close> nor the bytes of
  \<open>sharedValues\<close>.
\<close>

definition apart :: "LPM \<Rightarrow> proto \<Rightarrow> proto \<Rightarrow> bool" where
  "apart m pr q =
     (sharedCount m pr = 0
      \<or> ((sharedCount m q = 0
            \<or> sharedBase m pr + sharedCount m pr * (blockSize * 4) \<le> sharedBase m q
            \<or> sharedBase m q + sharedCount m q * (blockSize * 4) \<le> sharedBase m pr)
         \<and> (valuesLen m = 0
            \<or> sharedBase m pr + sharedCount m pr * (blockSize * 4) \<le> valuesBase m
            \<or> valuesBase m + valuesLen m \<le> sharedBase m pr)))"

definition tailMask :: "int \<Rightarrow> nat \<Rightarrow> u8" where
  "tailMask pl idx = push_bit (nat ((int idx + 1) * 8 - pl)) (0xff :: u8)"

definition valueCount :: "LPM \<Rightarrow> nat" where
  "valueCount m = sharedValueCount m + length (revValues m)"

definition family :: "Addr \<Rightarrow> proto" where
  "family a = (if Is6 a then v6LPM else v4LPM)"

definition valuesMap_ok :: "LPM \<Rightarrow> bool" where
  "valuesMap_ok m = (\<forall>v i. valuesMap m v = Some i \<longrightarrow> i < valueCount m)"

definition terminals_ok :: "LPM \<Rightarrow> proto \<Rightarrow> bool" where
  "terminals_ok m pr =
     (\<forall>w \<in> slot_words m pr. \<not> isBlockRef w \<longrightarrow> \<not> isInvalid w \<longrightarrow> fst (decodeValue w) < valueCount m)"

definition block_refs_ok :: "LPM \<Rightarrow> proto \<Rightarrow> bool" where
  "block_refs_ok m pr =
     (\<forall>w \<in> slot_words m pr. isBlockRef w \<longrightarrow> decodeBlockRef w < length (blocks m pr))"

inductive reachable :: "LPM \<Rightarrow> bool" where
  init: "reachable New"
| step: "reachable m \<Longrightarrow> - 1 \<le> Prefix_Bits net \<Longrightarrow> Prefix_Bits net \<le> 128
          \<Longrightarrow> Insert m net val = Some m' \<Longrightarrow> reachable m'"

definition addr_nat :: "u8 list \<Rightarrow> nat" where
  "addr_nat bs = foldl (\<lambda>acc b. acc * 256 + unat b) 0 bs"

definition Prefix_Contains :: "Prefix \<Rightarrow> Addr \<Rightarrow> bool" where
  "Prefix_Contains p a =
     (Is6 (Prefix_Addr p) = Is6 a
      \<and> length (AsSlice (Prefix_Addr p)) = length (AsSlice a)
      \<and> 0 \<le> Prefix_Bits p \<and> Prefix_Bits p \<le> 8 * int (length (AsSlice a))
      \<and> addr_nat (AsSlice (Prefix_Addr p)) div 2 ^ (8 * length (AsSlice a) - nat (Prefix_Bits p))
          = addr_nat (AsSlice a) div 2 ^ (8 * length (AsSlice a) - nat (Prefix_Bits p)))"

fun longest_match_acc ::
    "(Prefix \<times> string) list \<Rightarrow> Addr \<Rightarrow> (int \<times> string) option \<Rightarrow> (int \<times> string) option" where
  "longest_match_acc [] a best = best"
| "longest_match_acc ((p, v) # rest) a best =
     longest_match_acc rest a
       (if Prefix_Contains p a \<and> (case best of None \<Rightarrow> True | Some (n, w) \<Rightarrow> n \<le> Prefix_Bits p)
        then Some (Prefix_Bits p, v) else best)"

definition longest_match :: "(Prefix \<times> string) list \<Rightarrow> Addr \<Rightarrow> string \<times> bool" where
  "longest_match ins a =
     (case longest_match_acc ins a None of None \<Rightarrow> ('''', False) | Some (n, v) \<Rightarrow> (v, True))"

definition LookupAfter :: "(Prefix \<times> string) list \<Rightarrow> Addr \<Rightarrow> (string \<times> bool) option" where
  "LookupAfter ins a = (case InsertAll New ins of None \<Rightarrow> None | Some m \<Rightarrow> Lookup m a)"

definition example_trie :: LPM where
  "example_trie = the (Insert New (PrefixFrom (Addr4 [10, 1, 1, 0]) 24) ''A'')"

definition overflow_image :: "u8 list" where
  "overflow_image =
     [0x00, 0x4D, 0x50, 0x4C,  1, 0, 0, 0,  0, 0, 0, 0,  0, 0, 0, 0,  0, 0, 0, 1,
      0, 0, 0, 0,  0, 0, 0, 0,  0, 0, 0, 0,  0, 0, 0, 0]"

definition overflow_trie :: LPM where
  "overflow_trie = New\<lparr> backing := (\<lambda>a. overflow_image ! a), sharedValueCount := 16777216 \<rparr>"

definition returnsError :: "'a result \<Rightarrow> bool" where
  "returnsError r = (case r of Error e \<Rightarrow> True | _ \<Rightarrow> False)"

definition returnsValue :: "'a result \<Rightarrow> bool" where
  "returnsValue r = (case r of Ok x \<Rightarrow> True | _ \<Rightarrow> False)"

definition emptySlot_image :: "u8 list" where
  "emptySlot_image =
     [0x00, 0x4D, 0x50, 0x4C,  1, 0, 0, 0,  0, 0, 0, 0,  0, 0, 0, 0,  1, 0, 0, 0,
      0, 0, 0, 0,  0, 0, 0, 0,  0, 0, 0, 0,  0xE8, 0x03, 0, 0]"


definition dangling_image :: "u8 list" where
  "dangling_image =
     [0x00, 0x4D, 0x50, 0x4C,  1, 0, 0, 0,  0, 0, 0, 0,  1, 0, 0, 0,  0, 0, 0, 0,
      1, 0, 0, 0,  0, 0, 0, 0,  36, 0, 0, 0,  0, 0, 0, 0]
     @ concat (replicate 256 [0, 0, 0, 1])"

definition overlap_image :: "u8 list" where
  "overlap_image =
     [0x00, 0x4D, 0x50, 0x4C,  1, 0, 0, 0,  1, 0, 0, 0,  1, 0, 0, 0,  0, 0, 0, 0,
      0, 0, 0, 0,  36, 0, 0, 0,  36, 0, 0, 0,  0, 0, 0, 0]
     @ replicate 1024 0"

definition stripEmpty :: "string \<times> bool \<Rightarrow> string \<times> bool" where
  "stripEmpty r = (if fst r = [] then ('''', False) else r)"

definition packedHeader :: "nat \<Rightarrow> nat \<Rightarrow> nat \<Rightarrow> nat \<Rightarrow> StorageHeader" where
  "packedHeader l4 l6 n slot =
     \<lparr> Magic = magicNumber, Version = currentVersion,
       V4BlockCount = of_nat l4, V6BlockCount = of_nat l6,
       ValueCount = of_nat n, ValueSlotSize = of_nat slot,
       V4BlocksOffset = of_nat headerSize,
       V6BlocksOffset = of_nat (headerSize + l4 * (blockSize * 4)),
       ValuesOffset = of_nat (headerSize + l4 * (blockSize * 4) + l6 * (blockSize * 4)) \<rparr>"

fun LookupTerminal :: "LPM \<Rightarrow> proto \<Rightarrow> nat \<Rightarrow> u8 list \<Rightarrow> u32 option" where
  "LookupTerminal m pr blockIdx [] = None"
| "LookupTerminal m pr blockIdx (inBlockIdx # rest) =
     (case getValue m pr blockIdx inBlockIdx of
        None \<Rightarrow> None
      | Some v \<Rightarrow>
          if isBlockRef v then LookupTerminal m pr (decodeBlockRef v) rest
          else if isInvalid v then None
          else Some v)"

definition loaded :: "LPM result \<Rightarrow> LPM" where
  "loaded r = (case r of Ok m \<Rightarrow> m | _ \<Rightarrow> New)"

definition emptyValue_trie :: LPM where
  "emptyValue_trie = the (Insert New (PrefixFrom (Addr4 [10, 0, 0, 0]) 8) '''')"

definition emptyString_image :: "u8 list" where
  "emptyString_image =
     [0x00, 0x4D, 0x50, 0x4C,  1, 0, 0, 0,  1, 0, 0, 0,  0, 0, 0, 0,  1, 0, 0, 0,
      1, 0, 0, 0,  36, 0, 0, 0,  0, 0, 0, 0,  0x24, 0x04, 0, 0]
     @ concat (replicate 256 [0, 0, 0, 1]) @ [0]"

text \<open>
  The base address of a prefix (\<open>netip.Prefix.Masked\<close>): the address with the bits beyond
  the prefix length cleared; \<open>maskedBytes\<close> clears them byte by byte with the mask that
  \<open>Insert\<close> computes for the tail.  \<open>insertStop\<close> follows the walk of \<open>Insert\<close> along the
  bytes of a prefix and returns the first slot word on it that is not a block reference.
\<close>

fun maskedBytes :: "int \<Rightarrow> nat \<Rightarrow> u8 list \<Rightarrow> u8 list" where
  "maskedBytes pl idx [] = []"
| "maskedBytes pl idx (x # rest) =
     (if (int idx + 1) * 8 - pl \<ge> 0 then x AND tailMask pl idx else x) # maskedBytes pl (Suc idx) rest"



definition values_consistent :: "LPM \<Rightarrow> bool" where
  "values_consistent m =
     (\<forall>v i. valuesMap m v = Some i \<longrightarrow>
        sharedValueCount m \<le> i \<and> i - sharedValueCount m < length (revValues m)
        \<and> revValues m ! (i - sharedValueCount m) = v)"

definition valueName :: "nat \<Rightarrow> string" where
  "valueName k = string_of_bytes (le32 (of_nat k))"

definition manyValues :: "nat \<Rightarrow> (Prefix \<times> string) list" where
  "manyValues n = map (\<lambda>k. (PrefixFrom (Addr4 [0, 0, 0, 0]) 0, valueName k)) [0..<n]"

definition full_trie :: LPM where
  "full_trie = the (InsertAll New (manyValues 1073741824))"

definition spill_trie :: LPM where
  "spill_trie = the (Insert full_trie (PrefixFrom (Addr6 (replicate 16 0)) 128) (valueName 1073741824))"

section \<open>Facts about the codec and the block store\<close>

lemma length_le32 [simp]: "length (le32 w) = 4"
  by (simp add: le32_def)

lemma u8_bound: "unat (s::u8) < 256"
proof -
  have "unat s < 2 ^ LENGTH(8)" by (rule unsigned_less)
  then show ?thesis by simp
qed

lemma rd32_le32: "rd32 (le32 w) 0 = w"
proof -
  have "(ucast (ucast w :: u8) :: u32) OR push_bit 8 (ucast (ucast (drop_bit 8 w) :: u8))
      OR push_bit 16 (ucast (ucast (drop_bit 16 w) :: u8))
      OR push_bit 24 (ucast (ucast (drop_bit 24 w) :: u8)) = w" (is "?l = w")
  proof (rule bit_word_eqI)
    fix n assume "n < LENGTH(32)"
    then consider "n < 8" | "8 \<le> n" "n < 16" | "16 \<le> n" "n < 24" | "24 \<le> n" "n < 32"
      by fastforce
    then show "bit ?l n = bit w n"
      by cases (auto simp add: bit_simps)
  qed
  then show ?thesis by (simp add: rd32_def le32_def)
qed

lemma load32_nth: "load32 (\<lambda>a. bs ! a) off = rd32 bs off"
  by (simp add: load32_def rd32_def)

lemma loadBlock_nth: "loadBlock (\<lambda>a. bs ! a) off = blockAt bs off"
  by (simp add: loadBlock_def blockAt_def load32_nth)

lemma load32_bytes:
  "load32 mem a = rd32 [mem a, mem (a + 1), mem (a + 2), mem (a + 3)] 0"
  by (simp add: load32_def rd32_def)

lemma le32_bytes: "le32 w = [le32 w ! 0, le32 w ! 1, le32 w ! 2, le32 w ! 3]"
  by (simp add: le32_def)

lemma load32_cong:
  assumes "\<And>j. j < 4 \<Longrightarrow> mem' (a + j) = mem (a + j)"
  shows "load32 mem' a = load32 mem a"
  using assms[of 0] assms[of 1] assms[of 2] assms[of 3] by (simp add: load32_def)

lemma load32_le32:
  assumes "\<And>j. j < 4 \<Longrightarrow> mem (a + j) = le32 w ! j"
  shows "load32 mem a = w"
proof -
  have "[mem a, mem (a + 1), mem (a + 2), mem (a + 3)] = le32 w"
    using assms[of 0] assms[of 1] assms[of 2] assms[of 3] le32_bytes[of w] by simp
  then show ?thesis using load32_bytes[of mem a] rd32_le32[of w] by simp
qed

lemma le32_load32:
  assumes "j < 4"
  shows "le32 (load32 mem a) ! j = mem (a + j)"
proof -
  let ?w = "load32 mem a"
  have b0: "(ucast ?w :: u8) = mem a"
    unfolding load32_def by (rule bit_word_eqI) (auto simp add: bit_simps dest: bit_imp_le_length)
  have b1: "(ucast (drop_bit 8 ?w) :: u8) = mem (a + 1)"
    unfolding load32_def by (rule bit_word_eqI) (auto simp add: bit_simps dest: bit_imp_le_length)
  have b2: "(ucast (drop_bit 16 ?w) :: u8) = mem (a + 2)"
    unfolding load32_def by (rule bit_word_eqI) (auto simp add: bit_simps dest: bit_imp_le_length)
  have b3: "(ucast (drop_bit 24 ?w) :: u8) = mem (a + 3)"
    unfolding load32_def by (rule bit_word_eqI) (auto simp add: bit_simps dest: bit_imp_le_length)
  from assms consider "j = 0" | "j = 1" | "j = 2" | "j = 3" by linarith
  then show ?thesis
    by cases (simp_all add: le32_def b0 b1 b2 b3)
qed

lemma loadBlock_cong:
  assumes "\<And>x. a \<le> x \<Longrightarrow> x < a + blockSize * 4 \<Longrightarrow> mem' x = mem x"
  shows "loadBlock mem' a = loadBlock mem a"
proof (rule ext)
  fix s :: u8
  have "load32 mem' (a + 4 * unat s) = load32 mem (a + 4 * unat s)"
  proof (rule load32_cong)
    fix j :: nat assume "j < 4"
    then have "a + 4 * unat s + j < a + blockSize * 4"
      using u8_bound[of s] by (simp add: blockSize_def)
    then show "mem' (a + 4 * unat s + j) = mem (a + 4 * unat s + j)"
      by (intro assms) simp_all
  qed
  then show "loadBlock mem' a s = loadBlock mem a s" by (simp add: loadBlock_def)
qed

lemma load32_store32_same: "load32 (store32 mem a w) a = w"
  by (rule load32_le32) (simp add: store32_def)

lemma load32_store32_other:
  "a' + 4 \<le> a \<or> a + 4 \<le> a' \<Longrightarrow> load32 (store32 mem a w) a' = load32 mem a'"
  by (rule load32_cong) (auto simp add: store32_def)

lemma storeBlock_outside:
  "x < a \<or> a + blockSize * 4 \<le> x \<Longrightarrow> storeBlock mem a blk x = mem x"
  by (auto simp add: storeBlock_def)

lemma store32_outside:
  "x < a \<or> a + 4 \<le> x \<Longrightarrow> store32 mem a w x = mem x"
  by (auto simp add: store32_def)

lemma loadBlock_storeBlock_same: "loadBlock (storeBlock mem a blk) a = blk"
proof (rule ext)
  fix s :: u8
  have "load32 (storeBlock mem a blk) (a + 4 * unat s) = blk s"
  proof (rule load32_le32)
    fix j :: nat assume j: "j < 4"
    have "(4 * unat s + j) div 4 = unat s" "(4 * unat s + j) mod 4 = j" using j by simp_all
    moreover have "4 * unat s + j < blockSize * 4"
      using u8_bound[of s] j by (simp add: blockSize_def)
    ultimately show "storeBlock mem a blk (a + 4 * unat s + j) = le32 (blk s) ! j"
      by (simp add: storeBlock_def add.assoc)
  qed
  then show "loadBlock (storeBlock mem a blk) a s = blk s" by (simp add: loadBlock_def)
qed

lemma loadBlock_storeBlock_other:
  assumes "a' + blockSize * 4 \<le> a \<or> a + blockSize * 4 \<le> a'"
  shows "loadBlock (storeBlock mem a blk) a' = loadBlock mem a'"
proof (rule ext)
  fix s :: u8
  have "load32 (storeBlock mem a blk) (a' + 4 * unat s) = load32 mem (a' + 4 * unat s)"
  proof (rule load32_cong)
    fix j :: nat assume j: "j < 4"
    have "4 * unat s + j < blockSize * 4"
      using u8_bound[of s] j by (simp add: blockSize_def)
    then have "a' + 4 * unat s + j < a \<or> a + blockSize * 4 \<le> a' + 4 * unat s + j"
      using assms by linarith
    then show "storeBlock mem a blk (a' + 4 * unat s + j) = mem (a' + 4 * unat s + j)"
      by (rule storeBlock_outside)
  qed
  then show "loadBlock (storeBlock mem a blk) a' s = loadBlock mem a' s" by (simp add: loadBlock_def)
qed

lemma store32_storeBlock:
  "store32 mem (a + 4 * unat s) v = storeBlock mem a ((loadBlock mem a)(s := v))"
proof (rule ext)
  fix x :: nat
  show "store32 mem (a + 4 * unat s) v x = storeBlock mem a ((loadBlock mem a)(s := v)) x"
  proof (cases "a \<le> x \<and> x < a + blockSize * 4")
    case False
    moreover have "4 * unat s + 4 \<le> blockSize * 4" using u8_bound[of s] by (simp add: blockSize_def)
    ultimately have "x < a + 4 * unat s \<or> a + 4 * unat s + 4 \<le> x" by linarith
    then have "store32 mem (a + 4 * unat s) v x = mem x" by (rule store32_outside)
    moreover have "storeBlock mem a ((loadBlock mem a)(s := v)) x = mem x"
      using False by (intro storeBlock_outside) linarith
    ultimately show ?thesis by simp
  next
    case True
    define k where "k = (x - a) div 4"
    define j where "j = (x - a) mod 4"
    have x: "x = a + 4 * k + j" and j: "j < 4" and k: "k < 256"
      using True by (auto simp add: k_def j_def blockSize_def)
    have ks: "(of_nat k :: u8) = s \<longleftrightarrow> k = unat s"
    proof
      assume "(of_nat k :: u8) = s"
      then have "unat (of_nat k :: u8) = unat s" by simp
      then show "k = unat s" using k by (simp add: unat_of_nat)
    next
      assume "k = unat s"
      then show "(of_nat k :: u8) = s" by simp
    qed
    have sb: "storeBlock mem a ((loadBlock mem a)(s := v)) x
        = le32 (((loadBlock mem a)(s := v)) (of_nat k)) ! j"
      using True by (simp add: storeBlock_def k_def j_def)
    show ?thesis
    proof (cases "k = unat s")
      case e: True
      then have "store32 mem (a + 4 * unat s) v x = le32 v ! j"
        using x j by (simp add: store32_def)
      then show ?thesis using sb ks e by simp
    next
      case n: False
      then have "x < a + 4 * unat s \<or> a + 4 * unat s + 4 \<le> x" using x j by linarith
      then have "store32 mem (a + 4 * unat s) v x = mem x" by (rule store32_outside)
      moreover have "le32 (loadBlock mem a (of_nat k)) ! j = mem (a + 4 * k + j)"
        using le32_load32[OF j, of mem "a + 4 * k"] k
        by (simp add: loadBlock_def unat_of_nat)
      ultimately show ?thesis using sb ks n x by simp
    qed
  qed
qed


lemma unat_take_bit_of_nat:
  assumes "n \<le> 32"
  shows "unat (take_bit n (of_nat j :: 32 word)) = j mod 2 ^ n"
proof -
  have "unat (take_bit n (of_nat j :: 32 word)) = take_bit n (take_bit 32 j)"
    by (simp only: unsigned_take_bit_eq unsigned_of_nat) simp
  also have "\<dots> = take_bit n j" using assms by (simp add: min_def)
  finally show ?thesis by (simp add: take_bit_eq_mod)
qed

lemma uint_take_bit8_of_int:
  assumes "0 \<le> k" "k < 256"
  shows "uint (take_bit 8 (word_of_int k :: 32 word)) = k"
proof -
  have "uint (take_bit 8 (word_of_int k :: 32 word)) = take_bit 8 (take_bit 32 k)"
    by (simp only: unsigned_take_bit_eq uint_word_of_int_eq) simp
  also have "\<dots> = take_bit 8 k" by simp
  also have "\<dots> = k" using assms by (simp add: take_bit_eq_mod)
  finally show ?thesis .
qed

lemma and_mask24: "(x::32 word) AND 0xFFFFFF = take_bit 24 x"
proof -
  have "(0xFFFFFF::32 word) = mask 24" by (simp add: mask_eq_exp_minus_1)
  then show ?thesis by (simp add: take_bit_eq_mask)
qed

lemma and_mask30: "(x::32 word) AND 0x3FFFFFFF = take_bit 30 x"
proof -
  have "(0x3FFFFFFF::32 word) = mask 30" by (simp add: mask_eq_exp_minus_1)
  then show ?thesis by (simp add: take_bit_eq_mask)
qed

lemma refmask: "(0xC0000000::32 word) = NOT (mask 30)"
  by (simp add: mask_eq_exp_minus_1)

lemma isBlockRef_bits: "isBlockRef w \<longleftrightarrow> bit w 30 \<and> bit w 31"
proof
  assume "isBlockRef w"
  then have e: "w AND NOT (mask 30) = NOT (mask 30)"
    by (simp add: isBlockRef_def blockRefMask_def refmask)
  have "bit (w AND NOT (mask 30)) 30" "bit (w AND NOT (mask 30)) 31"
    unfolding e by (simp_all add: bit_simps)
  then show "bit w 30 \<and> bit w 31" by (simp add: bit_simps)
next
  assume a: "bit w 30 \<and> bit w 31"
  have "w AND NOT (mask 30) = NOT (mask 30)"
  proof (rule bit_word_eqI)
    fix n assume "n < LENGTH(32)"
    then have "n < 30 \<or> n = 30 \<or> n = 31" by auto
    then show "bit (w AND NOT (mask 30)) n = bit (NOT (mask 30 :: 32 word)) n"
      using a by (auto simp add: bit_simps)
  qed
  then show "isBlockRef w"
    by (simp add: isBlockRef_def blockRefMask_def refmask)
qed

lemma small_no_high_bits:
  assumes "vi < 2 ^ 30"
  shows "\<not> bit (of_nat vi :: 32 word) 30" "\<not> bit (of_nat vi :: 32 word) 31"
proof -
  have "take_bit 30 vi = vi" using assms by (simp add: take_bit_nat_eq_self)
  then have "(of_nat vi :: 32 word) = take_bit 30 (of_nat vi)"
    by (metis of_nat_take_bit)
  then have "\<And>n. bit (of_nat vi :: 32 word) n \<Longrightarrow> n < 30"
    by (metis bit_take_bit_iff)
  then show "\<not> bit (of_nat vi :: 32 word) 30" "\<not> bit (of_nat vi :: 32 word) 31"
    by fastforce+
qed

lemma prefix_byte_bits_aux:
  assumes "0 \<le> k" "k \<le> 129"
  shows "\<not> (bit (word_of_int k :: 32 word) 6 \<and> bit (word_of_int k :: 32 word) 7)"
proof -
  have "\<not> (odd (k div 64) \<and> odd (k div 128))"
  proof (cases "k < 128")
    case True
    then have "k div 128 = 0" using assms by simp
    then show ?thesis by simp
  next
    case False
    then have "k = 128 \<or> k = 129" using assms by auto
    then have "k div 64 = 2" by auto
    then show ?thesis by simp
  qed
  then have "\<not> (bit k 6 \<and> bit k 7)"
    by (simp add: bit_iff_odd)
  then show ?thesis
    by (simp only: bit_word_of_int_iff) simp
qed

lemma prefix_byte_bits:
  assumes "-1 \<le> pl" "pl \<le> 128"
  shows "\<not> (bit (word_of_int (pl + 1) :: 32 word) 6 \<and> bit (word_of_int (pl + 1) :: 32 word) 7)"
  using assms by (intro prefix_byte_bits_aux) auto

lemma encodeValue_not_blockRef:
  assumes "vi < 2 ^ 30" "-1 \<le> pl" "pl \<le> 128"
  shows "\<not> isBlockRef (encodeValue vi pl)"
  using small_no_high_bits[OF assms(1)] prefix_byte_bits[OF assms(2,3)]
  by (simp add: isBlockRef_bits encodeValue_def prefixLenShift_def bit_simps)

lemma encodeBlockRef_isBlockRef: "isBlockRef (encodeBlockRef j)"
  by (simp add: isBlockRef_bits encodeBlockRef_def blockRefMask_def refmask bit_simps)

lemma decode_encodeBlockRef: "decodeBlockRef (encodeBlockRef j) = j mod 2 ^ 30"
proof -
  have "take_bit 30 (NOT (mask 30) OR (of_nat j :: 32 word)) = take_bit 30 (of_nat j)"
    by (rule bit_word_eqI) (auto simp add: bit_simps)
  then have "decodeBlockRef (encodeBlockRef j) = unat (take_bit 30 (of_nat j :: 32 word))"
    by (simp add: decodeBlockRef_def encodeBlockRef_def blockRefMask_def blockIndexMask_def
        and_mask30 refmask)
  also have "\<dots> = j mod 2 ^ 30"
    by (rule unat_take_bit_of_nat) simp
  finally show ?thesis .
qed

lemma fst_decode_encodeValue: "fst (decodeValue (encodeValue vi pl)) = vi mod 2 ^ 24"
proof -
  have "take_bit 24 (push_bit 24 (word_of_int (pl + 1)) OR (of_nat vi :: 32 word)) = take_bit 24 (of_nat vi)"
    by (rule bit_word_eqI) (auto simp add: bit_simps)
  then have "fst (decodeValue (encodeValue vi pl)) = unat (take_bit 24 (of_nat vi :: 32 word))"
    by (simp add: decodeValue_def encodeValue_def valueIndexMask_def prefixLenShift_def and_mask24)
  also have "\<dots> = vi mod 2 ^ 24"
    by (rule unat_take_bit_of_nat) simp
  finally show ?thesis .
qed

lemma snd_decode_encodeValue:
  assumes "vi < 2 ^ 24" "-1 \<le> pl" "pl \<le> 254"
  shows "snd (decodeValue (encodeValue vi pl)) = pl"
proof -
  have v: "drop_bit 24 (of_nat vi :: 32 word) = 0"
    using assms(1) by (simp add: drop_bit_eq_div word_eq_iff_unsigned[where ?'a=nat] unat_div unat_of_nat)
  have "drop_bit 24 (push_bit 24 (word_of_int (pl + 1)) OR (of_nat vi :: 32 word))
        = take_bit 8 (word_of_int (pl + 1))"
    unfolding drop_bit_or v
    by (rule bit_word_eqI) (auto simp add: bit_simps)
  moreover have "uint (take_bit 8 (word_of_int (pl + 1) :: 32 word)) = pl + 1"
    using assms(2,3) by (intro uint_take_bit8_of_int) auto
  ultimately show ?thesis
    by (simp add: decodeValue_def encodeValue_def prefixLenShift_def)
qed

lemma encodeValue_nonzero:
  assumes "0 \<le> pl" "pl \<le> 254"
  shows "\<not> isInvalid (encodeValue vi pl)"
proof
  assume "isInvalid (encodeValue vi pl)"
  then have z: "push_bit 24 (word_of_int (pl + 1)) OR (of_nat vi :: 32 word) = 0"
    by (simp add: isInvalid_def encodeValue_def prefixLenShift_def)
  then have "push_bit 24 (word_of_int (pl + 1) :: 32 word) = 0"
    by (simp add: or_eq_0_iff)
  then have "drop_bit 24 (push_bit 24 (word_of_int (pl + 1) :: 32 word)) = 0"
    by (simp only: drop_bit_of_0)
  moreover have "drop_bit 24 (push_bit 24 (word_of_int (pl + 1) :: 32 word))
      = take_bit 8 (word_of_int (pl + 1))"
    by (rule bit_word_eqI) (auto simp add: bit_simps)
  ultimately have "uint (take_bit 8 (word_of_int (pl + 1) :: 32 word)) = 0" by simp
  moreover have "uint (take_bit 8 (word_of_int (pl + 1) :: 32 word)) = pl + 1"
    using assms by (intro uint_take_bit8_of_int) auto
  ultimately show False using assms by simp
qed


lemma length_shared: "length (shared m pr) = sharedCount m pr"
  by (simp add: shared_def)

lemma shared_nth:
  "i < sharedCount m pr \<Longrightarrow> shared m pr ! i = loadBlock (backing m) (sharedBase m pr + i * (blockSize * 4))"
  by (simp add: shared_def)

lemma shared_update [simp]:
  "shared (m\<lparr> dynamic := d \<rparr>) = shared m"
  "shared (m\<lparr> valuesMap := vm \<rparr>) = shared m"
  "shared (m\<lparr> revValues := rv \<rparr>) = shared m"
  "shared (m\<lparr> sharedValueCount := n \<rparr>) = shared m"
  by (rule ext, simp add: shared_def)+

lemma sharedValues_update [simp]:
  "sharedValues (m\<lparr> dynamic := d \<rparr>) = sharedValues m"
  "sharedValues (m\<lparr> valuesMap := vm \<rparr>) = sharedValues m"
  "sharedValues (m\<lparr> revValues := rv \<rparr>) = sharedValues m"
  "sharedValues (m\<lparr> sharedValueCount := n \<rparr>) = sharedValues m"
  "sharedValuesCap (m\<lparr> dynamic := d \<rparr>) = sharedValuesCap m"
  "sharedValuesCap (m\<lparr> valuesMap := vm \<rparr>) = sharedValuesCap m"
  "sharedValuesCap (m\<lparr> revValues := rv \<rparr>) = sharedValuesCap m"
  "sharedValuesCap (m\<lparr> sharedValueCount := n \<rparr>) = sharedValuesCap m"
  by (simp_all add: sharedValues_def sharedValuesCap_def)

lemma New_views [simp]:
  "shared New p = []" "sharedValues New = []" "sharedValuesCap New = []"
  by (simp_all add: shared_def sharedValues_def sharedValuesCap_def New_def)

lemma untouched_refl: "untouched m pr m"
  by (simp add: untouched_def)

lemma untouched_trans: "untouched m pr m1 \<Longrightarrow> untouched m1 pr m2 \<Longrightarrow> untouched m pr m2"
  by (auto simp add: untouched_def layout_def)

lemma untouched_append:
  "untouched m pr (m\<lparr> dynamic := (dynamic m)(pr := dynamic m pr @ [blk]) \<rparr>)"
  by (simp add: untouched_def layout_def)

lemma untouched_length_shared: "untouched m pr m' \<Longrightarrow> length (shared m' q) = length (shared m q)"
  by (simp add: untouched_def layout_def length_shared)

text \<open>When the written family has no shared blocks, the backing array is not written at all.\<close>

lemma untouched_backing:
  assumes "untouched m pr m'" "sharedCount m pr = 0"
  shows "backing m' = backing m"
proof (rule ext)
  fix a
  have "a < sharedBase m pr \<or> sharedBase m pr \<le> a" by linarith
  then show "backing m' a = backing m a" using assms by (auto simp add: untouched_def)
qed

lemma untouched_views:
  assumes "untouched m pr m'" "sharedCount m pr = 0"
  shows "shared m' = shared m" "sharedValues m' = sharedValues m" "sharedValuesCap m' = sharedValuesCap m"
proof -
  have b: "backing m' = backing m" by (rule untouched_backing[OF assms])
  have l: "layout m' = layout m" using assms(1) by (simp add: untouched_def)
  show "shared m' = shared m" using b l by (intro ext) (simp add: shared_def layout_def)
  show "sharedValues m' = sharedValues m" using b l by (simp add: sharedValues_def layout_def)
  show "sharedValuesCap m' = sharedValuesCap m" using b l by (simp add: sharedValuesCap_def layout_def)
qed

lemma untouched_blocks:
  assumes "untouched m pr m'" "sharedCount m pr = 0" "q \<noteq> pr"
  shows "blocks m' q = blocks m q"
  using untouched_views(1)[OF assms(1,2)] assms(1,3) by (simp add: blocks_def untouched_def)

lemma apart_no_shared: "sharedCount m pr = 0 \<Longrightarrow> apart m pr q"
  by (simp add: apart_def)

lemma untouched_apart:
  assumes u: "untouched m pr m'" and ap: "apart m pr q" and ne: "q \<noteq> pr"
  shows "blocks m' q = blocks m q" "sharedValues m' = sharedValues m"
proof -
  show "blocks m' q = blocks m q"
  proof (cases "sharedCount m pr = 0")
    case True
    then show ?thesis by (rule untouched_blocks[OF u _ ne])
  next
    case False
    from u have l: "sharedBase m' = sharedBase m" "sharedCount m' = sharedCount m"
      and d: "dynamic m' q = dynamic m q"
      and b: "\<And>a. a < sharedBase m pr \<or> sharedBase m pr + sharedCount m pr * (blockSize * 4) \<le> a
                \<Longrightarrow> backing m' a = backing m a"
      using ne by (auto simp add: untouched_def layout_def)
    from ap False have far: "sharedCount m q = 0
         \<or> sharedBase m pr + sharedCount m pr * (blockSize * 4) \<le> sharedBase m q
         \<or> sharedBase m q + sharedCount m q * (blockSize * 4) \<le> sharedBase m pr"
      by (simp add: apart_def)
    have "loadBlock (backing m') (sharedBase m q + i * (blockSize * 4))
        = loadBlock (backing m) (sharedBase m q + i * (blockSize * 4))" if i: "i < sharedCount m q" for i
    proof (rule loadBlock_cong)
      fix x assume x: "sharedBase m q + i * (blockSize * 4) \<le> x"
        "x < sharedBase m q + i * (blockSize * 4) + blockSize * 4"
      have "Suc i * (blockSize * 4) \<le> sharedCount m q * (blockSize * 4)"
        using i by (intro mult_le_mono1) simp
      then have "x < sharedBase m q + sharedCount m q * (blockSize * 4)" using x(2) by simp
      with x(1) far i have "x < sharedBase m pr \<or> sharedBase m pr + sharedCount m pr * (blockSize * 4) \<le> x"
        by auto
      then show "backing m' x = backing m x" by (rule b)
    qed
    then have "shared m' q = shared m q" by (simp add: shared_def l)
    then show ?thesis using d by (simp add: blocks_def)
  qed
  show "sharedValues m' = sharedValues m"
  proof (cases "sharedCount m pr = 0")
    case True
    then show ?thesis by (rule untouched_views(2)[OF u])
  next
    case False
    from u have l: "valuesBase m' = valuesBase m" "valuesLen m' = valuesLen m"
      and b: "\<And>a. a < sharedBase m pr \<or> sharedBase m pr + sharedCount m pr * (blockSize * 4) \<le> a
                \<Longrightarrow> backing m' a = backing m a"
      by (auto simp add: untouched_def layout_def)
    from ap False have far: "valuesLen m = 0
         \<or> sharedBase m pr + sharedCount m pr * (blockSize * 4) \<le> valuesBase m
         \<or> valuesBase m + valuesLen m \<le> sharedBase m pr"
      by (simp add: apart_def)
    have "backing m' x = backing m x" if "x \<in> set [valuesBase m ..< valuesBase m + valuesLen m]" for x
      using that far by (intro b) auto
    then show ?thesis by (simp add: sharedValues_def l)
  qed
qed

lemma getBlockRef_blocks:
  "getBlockRef m pr b = (if b < length (blocks m pr) then Some (blocks m pr ! b) else None)"
  by (auto simp add: getBlockRef_def blocks_def Let_def nth_append)

lemma getValue_blocks:
  "getValue m pr b s = (if b < length (blocks m pr) then Some ((blocks m pr ! b) s) else None)"
  by (auto simp add: getValue_def blocks_def Let_def nth_append)

lemma shared_storeBlock:
  assumes b: "b < sharedCount m pr"
  shows "shared (m\<lparr> backing := storeBlock (backing m) (sharedBase m pr + b * (blockSize * 4)) blk \<rparr>) pr
           = (shared m pr)[b := blk]" (is "shared ?m' pr = _")
proof (rule nth_equalityI)
  show "length (shared ?m' pr) = length ((shared m pr)[b := blk])" by (simp add: length_shared)
next
  fix i assume "i < length (shared ?m' pr)"
  then have i: "i < sharedCount m pr" by (simp add: length_shared)
  show "shared ?m' pr ! i = (shared m pr)[b := blk] ! i"
  proof (cases "i = b")
    case True
    then show ?thesis using b
      by (simp add: shared_nth loadBlock_storeBlock_same length_shared)
  next
    case False
    then have "i < b \<or> b < i" by auto
    then have "sharedBase m pr + i * 1024 + 1024 \<le> sharedBase m pr + b * 1024
        \<or> sharedBase m pr + b * 1024 + 1024 \<le> sharedBase m pr + i * 1024" by auto
    then have "loadBlock (storeBlock (backing m) (sharedBase m pr + b * (blockSize * 4)) blk)
          (sharedBase m pr + i * (blockSize * 4))
        = loadBlock (backing m) (sharedBase m pr + i * (blockSize * 4))"
      by (intro loadBlock_storeBlock_other) (simp add: blockSize_def)
    then show ?thesis using False i b by (simp add: shared_nth length_shared)
  qed
qed

lemma putBlockRef_blocks:
  assumes "putBlockRef m pr b blk = Some m'"
  shows "b < length (blocks m pr)"
    and "blocks m' pr = (blocks m pr)[b := blk]"
    and "untouched m pr m'"
    and "valuePart m' = valuePart m"
    and "length (shared m' q) = length (shared m q)"
proof -
  have "b < length (blocks m pr) \<and> blocks m' pr = (blocks m pr)[b := blk] \<and> untouched m pr m'
      \<and> valuePart m' = valuePart m \<and> length (shared m' q) = length (shared m q)"
  proof (cases "b < sharedCount m pr")
    case True
    let ?a = "sharedBase m pr + b * (blockSize * 4)"
    from assms True have m': "m' = m\<lparr> backing := storeBlock (backing m) ?a blk \<rparr>"
      by (simp add: putBlockRef_def length_shared)
    have "untouched m pr m'"
    proof -
      have "backing m' a = backing m a"
        if "a < sharedBase m pr \<or> sharedBase m pr + sharedCount m pr * (blockSize * 4) \<le> a" for a
      proof -
        have "Suc b * (blockSize * 4) \<le> sharedCount m pr * (blockSize * 4)"
          using True by (intro mult_le_mono1) simp
        then have "a < ?a \<or> ?a + blockSize * 4 \<le> a" using that by auto
        then show ?thesis unfolding m' by (simp add: storeBlock_outside)
      qed
      then show ?thesis unfolding m' by (simp add: untouched_def layout_def)
    qed
    moreover have "blocks m' pr = (blocks m pr)[b := blk]"
      unfolding m' blocks_def using True shared_storeBlock[OF True, of blk]
      by (simp add: list_update_append length_shared)
    ultimately show ?thesis using True unfolding m'
      by (simp add: blocks_def valuePart_def length_shared)
  next
    case False
    with assms have d: "b - sharedCount m pr < length (dynamic m pr)"
      and m': "m' = m\<lparr> dynamic := (dynamic m)(pr := (dynamic m pr)[b - sharedCount m pr := blk]) \<rparr>"
      by (simp_all add: putBlockRef_def Let_def length_shared split: if_splits)
    show ?thesis using False d unfolding m'
      by (auto simp add: blocks_def valuePart_def untouched_def layout_def list_update_append
          length_shared)
  qed
  then show "b < length (blocks m pr)"
    and "blocks m' pr = (blocks m pr)[b := blk]"
    and "untouched m pr m'"
    and "valuePart m' = valuePart m"
    and "length (shared m' q) = length (shared m q)"
    by simp_all
qed

lemma putBlockRef_defined:
  "b < length (blocks m pr) \<Longrightarrow> \<exists>m'. putBlockRef m pr b blk = Some m'"
  by (auto simp add: putBlockRef_def blocks_def Let_def)

lemma setValue_putBlockRef:
  "setValue m pr b s v =
     (if b < length (blocks m pr) then putBlockRef m pr b ((blocks m pr ! b)(s := v)) else None)"
proof (cases "b < sharedCount m pr")
  case True
  have "store32 (backing m) (sharedBase m pr + b * (blockSize * 4) + 4 * unat s) v
      = storeBlock (backing m) (sharedBase m pr + b * (blockSize * 4)) ((shared m pr ! b)(s := v))"
    using True by (simp add: store32_storeBlock shared_nth)
  then show ?thesis using True
    by (simp add: setValue_def putBlockRef_def blocks_def nth_append length_shared)
next
  case False
  then show ?thesis
    by (auto simp add: setValue_def putBlockRef_def blocks_def Let_def nth_append length_shared)
qed

lemma setValue_blocks:
  assumes "setValue m pr b s v = Some m'"
  shows "b < length (blocks m pr)"
    and "blocks m' pr = (blocks m pr)[b := (blocks m pr ! b)(s := v)]"
    and "untouched m pr m'"
    and "valuePart m' = valuePart m"
    and "length (shared m' q) = length (shared m q)"
  using assms putBlockRef_blocks[of m pr b "(blocks m pr ! b)(s := v)" m']
  by (auto simp add: setValue_putBlockRef split: if_splits)

lemma append_block_blocks:
  "blocks (m\<lparr> dynamic := (dynamic m)(pr := dynamic m pr @ [blk]) \<rparr>) q
     = (if q = pr then blocks m pr @ [blk] else blocks m q)"
  "valuePart (m\<lparr> dynamic := (dynamic m)(pr := dynamic m pr @ [blk]) \<rparr>) = valuePart m"
  "length (shared (m\<lparr> dynamic := (dynamic m)(pr := dynamic m pr @ [blk]) \<rparr>) q) = length (shared m q)"
  by (auto simp add: blocks_def valuePart_def)

lemma total_blocks: "length (shared m pr) + length (dynamic m pr) = length (blocks m pr)"
  by (simp add: blocks_def)

lemma slot_words_update:
  "b < length bs \<Longrightarrow> (\<Union>blk \<in> set (bs[b := blk']). range blk) \<subseteq> (\<Union>blk \<in> set bs. range blk) \<union> range blk'"
  using set_update_subset_insert[of bs b blk'] by auto

lemma range_upd_subset: "range (f(s := v)) \<subseteq> insert v (range f)"
  by auto

text \<open>propagateStep at the level of blocks\<close>

lemma propagateStep_cases:
  assumes "propagateStep m pr b nv pl s = Some m'"
  obtains
    (ref) cur inner where "getValue m pr b s = Some cur" "isBlockRef cur"
      "getBlockRef m pr (decodeBlockRef cur) = Some inner"
      "putBlockRef m pr (decodeBlockRef cur)
         (\<lambda>idx. if isInvalid (inner idx) then nv else inner idx) = Some m'"
  | (set) cur where "getValue m pr b s = Some cur" "\<not> isBlockRef cur"
      "isInvalid cur \<or> snd (decodeValue cur) \<le> pl" "setValue m pr b s nv = Some m'"
  | (keep) cur where "getValue m pr b s = Some cur" "\<not> isBlockRef cur" "\<not> isInvalid cur"
      "\<not> snd (decodeValue cur) \<le> pl" "m' = m"
proof (cases "getValue m pr b s")
  case None
  with assms show ?thesis by (simp add: propagateStep_def)
next
  case (Some cur)
  show ?thesis
  proof (cases "isBlockRef cur")
    case True
    show ?thesis
    proof (cases "getBlockRef m pr (decodeBlockRef cur)")
      case None
      with assms Some True show ?thesis by (simp add: propagateStep_def)
    next
      case (Some inner)
      with assms \<open>getValue m pr b s = Some cur\<close> True show ?thesis
        by (intro ref[of cur inner]) (simp_all add: propagateStep_def)
    qed
  next
    case False
    show ?thesis
    proof (cases "isInvalid cur \<or> snd (decodeValue cur) \<le> pl")
      case True
      with assms Some False have "setValue m pr b s nv = Some m'"
        by (auto simp add: propagateStep_def Let_def split: if_splits)
      with Some False True show ?thesis by (intro set[of cur])
    next
      case c: False
      with assms Some False have "m' = m"
        by (simp add: propagateStep_def Let_def)
      with Some False c show ?thesis by (intro keep[of cur]) auto
    qed
  qed
qed

lemma nth_range_slot_words: "b < length (blocks m pr) \<Longrightarrow> range (blocks m pr ! b) \<subseteq> slot_words m pr"
  unfolding slot_words_def using nth_mem[of b "blocks m pr"] by blast

lemma slot_words_put:
  assumes "blocks m' pr = (blocks m pr)[b := blk]" "b < length (blocks m pr)"
    "range blk \<subseteq> insert nv (slot_words m pr)"
  shows "slot_words m' pr \<subseteq> insert nv (slot_words m pr)"
proof -
  have "slot_words m' pr \<subseteq> slot_words m pr \<union> range blk"
    unfolding slot_words_def assms(1) by (rule slot_words_update[OF assms(2)])
  with assms(3) show ?thesis by blast
qed

lemma propagateStep_frame:
  assumes "propagateStep m pr b nv pl s = Some m'"
  shows "valuePart m' = valuePart m"
    and "untouched m pr m'"
    and "length (blocks m' pr) = length (blocks m pr)"
    and "length (shared m' q) = length (shared m q)"
    and "slot_words m' pr \<subseteq> insert nv (slot_words m pr)"
proof -
  have "valuePart m' = valuePart m \<and> untouched m pr m' 
      \<and> length (blocks m' pr) = length (blocks m pr) \<and> length (shared m' q) = length (shared m q)
      \<and> slot_words m' pr \<subseteq> insert nv (slot_words m pr)"
    using assms
  proof (cases rule: propagateStep_cases)
    case (ref cur inner)
    let ?j = "decodeBlockRef cur"
    let ?blk = "\<lambda>idx. if isInvalid (inner idx) then nv else inner idx"
    from ref(3) have j: "?j < length (blocks m pr)" and in_eq: "inner = blocks m pr ! ?j"
      by (simp_all add: getBlockRef_blocks split: if_splits)
    have "range ?blk \<subseteq> insert nv (range inner)" by auto
    with nth_range_slot_words[OF j] in_eq
    have "range ?blk \<subseteq> insert nv (slot_words m pr)" by blast
    from slot_words_put[OF putBlockRef_blocks(2)[OF ref(4)] j this]
    show ?thesis using putBlockRef_blocks[OF ref(4)] by simp
  next
    case (set cur)
    from set(4) have b: "b < length (blocks m pr)" by (rule setValue_blocks(1))
    let ?blk = "(blocks m pr ! b)(s := nv)"
    have "range ?blk \<subseteq> insert nv (range (blocks m pr ! b))" by auto
    with nth_range_slot_words[OF b]
    have "range ?blk \<subseteq> insert nv (slot_words m pr)" by blast
    from slot_words_put[OF setValue_blocks(2)[OF set(4)] b this]
    show ?thesis using setValue_blocks[OF set(4)] by simp
  next
    case (keep cur)
    then show ?thesis by (auto simp add: untouched_refl)
  qed
  then show "valuePart m' = valuePart m"
    and "untouched m pr m'"
    and "length (blocks m' pr) = length (blocks m pr)"
    and "length (shared m' q) = length (shared m q)"
    and "slot_words m' pr \<subseteq> insert nv (slot_words m pr)"
    by auto
qed

lemma propagateLoop_frame:
  assumes "propagateLoop m pr b nv pl is = Some m'"
  shows "valuePart m' = valuePart m \<and> untouched m pr m'
      \<and> length (blocks m' pr) = length (blocks m pr) \<and> (\<forall>q. length (shared m' q) = length (shared m q))
      \<and> slot_words m' pr \<subseteq> insert nv (slot_words m pr)"
  using assms
proof (induction "is" arbitrary: m)
  case Nil
  then show ?case by (auto simp add: untouched_refl)
next
  case (Cons i "is")
  from Cons.prems obtain m1 where
    st: "propagateStep m pr b nv pl (of_nat i) = Some m1"
    and rest: "propagateLoop m1 pr b nv pl is = Some m'"
    by (auto split: option.splits)
  from Cons.IH[OF rest] propagateStep_frame[OF st]
    untouched_trans[OF propagateStep_frame(2)[OF st], of m']
  show ?case by auto
qed


lemma InsertLoop_Cons_cases:
  assumes "InsertLoop m pr vi pl b idx (x # rest) = Some m'"
  obtains
    (terminal) "(int idx + 1) * 8 - pl \<ge> 0"
      "propagateValue m pr b vi pl (x AND tailMask pl idx) ((x AND tailMask pl idx) OR NOT (tailMask pl idx)) = Some m'"
  | (follow) cur where "(int idx + 1) * 8 - pl < 0" "getValue m pr b x = Some cur" "isBlockRef cur"
      "InsertLoop m pr vi pl (decodeBlockRef cur) (Suc idx) rest = Some m'"
  | (create) cur m1 where "(int idx + 1) * 8 - pl < 0" "getValue m pr b x = Some cur"
      "\<not> isBlockRef cur"
      "setValue m pr b x (encodeBlockRef (length (blocks m pr))) = Some m1"
      "InsertLoop (m1\<lparr> dynamic := (dynamic m1)(pr := dynamic m1 pr @ [blockWithValue cur]) \<rparr>)
         pr vi pl (length (blocks m pr)) (Suc idx) rest = Some m'"
proof (cases "(int idx + 1) * 8 - pl \<ge> 0")
  case True
  with assms show ?thesis
    by (intro terminal) (simp_all add: tailMask_def Let_def)
next
  case neg: False
  show ?thesis
  proof (cases "getValue m pr b x")
    case None
    with assms neg show ?thesis by (simp add: Let_def)
  next
    case (Some cur)
    show ?thesis
    proof (cases "isBlockRef cur")
      case True
      with assms neg Some show ?thesis
        by (intro follow[of cur]) (simp_all add: Let_def)
    next
      case nref: False
      show ?thesis
      proof (cases "setValue m pr b x (encodeBlockRef (length (blocks m pr)))")
        case None
        with assms neg Some nref show ?thesis by (simp add: Let_def total_blocks)
      next
        case s: (Some m1)
        with assms neg Some nref show ?thesis
          by (intro create[of cur m1]) (simp_all add: Let_def total_blocks)
      qed
    qed
  qed
qed

lemma range_blockWithValue: "range (blockWithValue v) \<subseteq> {0, v}"
  by (auto simp add: blockWithValue_def)

lemma getValue_in_slot_words: "getValue m pr b s = Some cur \<Longrightarrow> cur \<in> slot_words m pr"
  using nth_range_slot_words[of b m pr]
  by (auto simp add: getValue_blocks split: if_splits)

lemma slot_words_append:
  "slot_words (m\<lparr> dynamic := (dynamic m)(pr := dynamic m pr @ [blk]) \<rparr>) pr = slot_words m pr \<union> range blk"
  by (auto simp add: slot_words_def append_block_blocks)

lemma set_chain:
  "A' \<subseteq> A2 \<union> {z, v} \<union> R2 \<Longrightarrow> A2 \<subseteq> A \<union> {z, r} \<Longrightarrow> R2 \<subseteq> R \<Longrightarrow> r \<in> R
     \<Longrightarrow> A' \<subseteq> A \<union> {z, v} \<union> R"
  by auto

lemma InsertLoop_frame:
  assumes "InsertLoop m pr vi pl b idx bytes = Some m'"
  shows "valuePart m' = valuePart m \<and> untouched m pr m'
      \<and> length (blocks m pr) \<le> length (blocks m' pr)
      \<and> (\<forall>q. length (shared m' q) = length (shared m q))
      \<and> slot_words m' pr \<subseteq> slot_words m pr \<union> {0, encodeValue vi pl}
            \<union> encodeBlockRef ` {length (blocks m pr) ..< length (blocks m' pr)}"
  using assms
proof (induction bytes arbitrary: m b idx)
  case Nil
  then show ?case by (auto simp add: untouched_refl)
next
  case (Cons x rest)
  from Cons.prems show ?case
  proof (cases rule: InsertLoop_Cons_cases)
    case terminal
    from propagateLoop_frame[OF terminal(2)[unfolded propagateValue_def]]
    show ?thesis by auto
  next
    case (follow cur)
    from Cons.IH[OF follow(4)] show ?thesis .
  next
    case (create cur m1)
    let ?n = "length (blocks m pr)"
    let ?m2 = "m1\<lparr> dynamic := (dynamic m1)(pr := dynamic m1 pr @ [blockWithValue cur]) \<rparr>"
    note s = setValue_blocks[OF create(4)]
    have len2: "length (blocks ?m2 pr) = Suc ?n"
      using s(2) by (simp add: append_block_blocks)
    have w1: "slot_words m1 pr \<subseteq> insert (encodeBlockRef ?n) (slot_words m pr)"
    proof (rule slot_words_put[OF s(2) s(1)])
      show "range ((blocks m pr ! b)(x := encodeBlockRef ?n)) \<subseteq> insert (encodeBlockRef ?n) (slot_words m pr)"
        using nth_range_slot_words[OF s(1)] range_upd_subset[of "blocks m pr ! b" x "encodeBlockRef ?n"]
        by (meson insert_mono subset_trans)
    qed
    have "{0, cur} \<subseteq> slot_words m pr \<union> {0, encodeBlockRef ?n}"
      using getValue_in_slot_words[OF create(2)] by simp
    then have "range (blockWithValue cur) \<subseteq> slot_words m pr \<union> {0, encodeBlockRef ?n}"
      by (rule subset_trans[OF range_blockWithValue])
    moreover have "slot_words m1 pr \<subseteq> slot_words m pr \<union> {0, encodeBlockRef ?n}"
      using w1 by auto
    ultimately have w2: "slot_words ?m2 pr \<subseteq> slot_words m pr \<union> {0, encodeBlockRef ?n}"
      unfolding slot_words_append by (rule Un_least[rotated])
    note ih = Cons.IH[OF create(5)]
    have lenm': "Suc ?n \<le> length (blocks m' pr)" using ih len2 by simp
    have "encodeBlockRef ` {length (blocks ?m2 pr) ..< length (blocks m' pr)}
            \<subseteq> encodeBlockRef ` {?n ..< length (blocks m' pr)}"
      unfolding len2 by auto
    moreover have "encodeBlockRef ?n \<in> encodeBlockRef ` {?n ..< length (blocks m' pr)}"
      using lenm' by auto
    ultimately have "slot_words m' pr \<subseteq> slot_words m pr \<union> {0, encodeValue vi pl}
            \<union> encodeBlockRef ` {?n ..< length (blocks m' pr)}"
      using set_chain[OF conjunct2[OF conjunct2[OF conjunct2[OF conjunct2[OF ih]]]] w2]
      by simp
    moreover have "valuePart m' = valuePart m"
      using ih s(4) by (simp add: append_block_blocks)
    moreover have "untouched m pr m'"
      using untouched_trans[OF untouched_trans[OF s(3) untouched_append[of m1 pr "blockWithValue cur"]]] ih
      by simp
    moreover have "\<forall>q. length (shared m' q) = length (shared m q)"
      using ih s(5) by (simp add: append_block_blocks)
    ultimately show ?thesis using lenm' by simp
  qed
qed


lemma addValue_cases:
  obtains (old) i where "valuesMap m val = Some i" "addValue m val = (m, i)"
  | (new) "valuesMap m val = None"
      "addValue m val = (m\<lparr> valuesMap := (valuesMap m)(val \<mapsto> valueCount m),
                              revValues := revValues m @ [val] \<rparr>, valueCount m)"
  by (cases "valuesMap m val") (auto simp add: addValue_def valueCount_def Let_def)

lemma addValue_frame:
  assumes "addValue m val = (m1, vi)"
  shows "blocks m1 = blocks m" "shared m1 = shared m"
    "sharedValues m1 = sharedValues m" "sharedValuesCap m1 = sharedValuesCap m"
    "sharedValuesSlotSize m1 = sharedValuesSlotSize m" "sharedValueCount m1 = sharedValueCount m"
    "slot_words m1 = slot_words m"
    "valueCount m \<le> valueCount m1"
    "revValues m1 = revValues m \<or> revValues m1 = revValues m @ [val]"
    "valuesMap_ok m \<Longrightarrow> valuesMap_ok m1 \<and> vi < valueCount m1"
proof -
  have "blocks m1 = blocks m \<and> shared m1 = shared m \<and>
    sharedValues m1 = sharedValues m \<and> sharedValuesCap m1 = sharedValuesCap m \<and>
    sharedValuesSlotSize m1 = sharedValuesSlotSize m \<and> sharedValueCount m1 = sharedValueCount m \<and>
    slot_words m1 = slot_words m \<and>
    valueCount m \<le> valueCount m1 \<and>
    (revValues m1 = revValues m \<or> revValues m1 = revValues m @ [val]) \<and>
    (valuesMap_ok m \<longrightarrow> valuesMap_ok m1 \<and> vi < valueCount m1)"
  proof (cases rule: addValue_cases[of m val])
    case (old i)
    with assms show ?thesis by (auto simp add: valuesMap_ok_def)
  next
    case new
    with assms have m1: "m1 = m\<lparr> valuesMap := (valuesMap m)(val \<mapsto> valueCount m),
                              revValues := revValues m @ [val] \<rparr>" and vi: "vi = valueCount m"
      by auto
    have "blocks m1 = blocks m" unfolding m1 by (rule ext) (simp add: blocks_def)
    moreover have "slot_words m1 = slot_words m" unfolding m1 by (rule ext) (simp add: slot_words_def blocks_def)
    moreover have "valuesMap_ok m \<longrightarrow> valuesMap_ok m1"
      unfolding m1 by (auto simp add: valuesMap_ok_def valueCount_def less_Suc_eq)
    ultimately show ?thesis unfolding vi using m1
      by (simp add: valueCount_def)
  qed
  then show "blocks m1 = blocks m" "shared m1 = shared m"
    "sharedValues m1 = sharedValues m" "sharedValuesCap m1 = sharedValuesCap m"
    "sharedValuesSlotSize m1 = sharedValuesSlotSize m" "sharedValueCount m1 = sharedValueCount m"
    "slot_words m1 = slot_words m"
    "valueCount m \<le> valueCount m1"
    "revValues m1 = revValues m \<or> revValues m1 = revValues m @ [val]"
    "valuesMap_ok m \<Longrightarrow> valuesMap_ok m1 \<and> vi < valueCount m1"
    by auto
qed

lemma addValue_untouched:
  assumes "addValue m val = (m1, vi)"
  shows "layout m1 = layout m" "dynamic m1 = dynamic m" "backing m1 = backing m"
  using assms by (cases rule: addValue_cases[of m val]; auto simp add: layout_def)+

lemma Insert_frame:
  assumes "Insert m net val = Some m'" and av: "addValue m val = (m1, vi)"
  defines "pr \<equiv> family (Prefix_Addr net)"
  shows "valuePart m' = valuePart m1"
    and "untouched m pr m'"
    and "length (blocks m pr) \<le> length (blocks m' pr)"
    and "length (shared m' q) = length (shared m q)"
    and "slot_words m' pr \<subseteq> slot_words m pr \<union> {0, encodeValue vi (Prefix_Bits net)}
            \<union> encodeBlockRef ` {length (blocks m pr) ..< length (blocks m' pr)}"
proof -
  from assms(1) av have il: "InsertLoop m1 pr vi (Prefix_Bits net) 0 0 (AsSlice (Prefix_Addr net)) = Some m'"
    by (simp add: Insert_def pr_def family_def)
  note f = InsertLoop_frame[OF il] and a = addValue_frame[OF av]
  show "valuePart m' = valuePart m1" using f by simp
  show "untouched m pr m'" using f addValue_untouched[OF av] by (simp add: untouched_def layout_def)
  show "length (blocks m pr) \<le> length (blocks m' pr)" using f a(1) by simp
  show "length (shared m' q) = length (shared m q)" using f a(2) by simp
  show "slot_words m' pr \<subseteq> slot_words m pr \<union> {0, encodeValue vi (Prefix_Bits net)}
            \<union> encodeBlockRef ` {length (blocks m pr) ..< length (blocks m' pr)}"
    using f a(1) a(7) by simp
qed

lemma valueCount_valuePart: "valuePart m' = valuePart m \<Longrightarrow> valueCount m' = valueCount m"
  by (simp add: valuePart_def valueCount_def)

lemma valuesMap_ok_valuePart: "valuePart m' = valuePart m \<Longrightarrow> valuesMap_ok m' = valuesMap_ok m"
  by (simp add: valuePart_def valuesMap_ok_def valueCount_def)

lemma not_isBlockRef_0 [simp]: "\<not> isBlockRef 0"
  by (simp add: isBlockRef_def blockRefMask_def)

lemma isInvalid_0 [simp]: "isInvalid 0"
  by (simp add: isInvalid_def)

text \<open>A trie built from \<open>New\<close> has no shared tier, and its backing array is never written.\<close>

lemma reachable_layout: "reachable m \<Longrightarrow> layout m = layout New \<and> backing m = backing New"
proof (induction rule: reachable.induct)
  case init
  show ?case by simp
next
  case (step m net val m')
  obtain m1 vi where av: "addValue m val = (m1, vi)" by (cases "addValue m val")
  note u = Insert_frame(2)[OF step(4) av]
  have "sharedCount m (family (Prefix_Addr net)) = 0"
    using step.IH by (simp add: layout_def New_def)
  from untouched_backing[OF u this] u step.IH show ?case by (simp add: untouched_def)
qed

lemma reachable_no_shared:
  assumes "reachable m"
  shows "sharedCount m q = 0" "shared m q = []" "sharedValues m = []"
  using reachable_layout[OF assms]
  by (simp_all add: layout_def New_def shared_def sharedValues_def)

lemma Insert_terminals_ok:
  assumes ins: "Insert m net val = Some m'" and vm: "valuesMap_ok m"
    and t: "\<And>q. terminals_ok m q"
    and ns: "sharedCount m (family (Prefix_Addr net)) = 0"
  shows "valuesMap_ok m' \<and> (\<forall>q. terminals_ok m' q)"
proof -
  obtain m1 vi where av: "addValue m val = (m1, vi)" by (cases "addValue m val")
  define pr where "pr = family (Prefix_Addr net)"
  note f = Insert_frame[OF ins av, folded pr_def] and a = addValue_frame[OF av]
  have c: "valueCount m' = valueCount m1" using f(1) by (rule valueCount_valuePart)
  have vi: "vi < valueCount m'" and vm1: "valuesMap_ok m1" using a(10)[OF vm] c by simp_all
  have vm': "valuesMap_ok m'" using vm1 valuesMap_ok_valuePart[OF f(1)] by simp
  have mono: "valueCount m \<le> valueCount m'" using a(8) c by simp
  have "terminals_ok m' q" for q
  proof (cases "q = pr")
    case False
    then have "slot_words m' q = slot_words m q"
      using untouched_blocks[OF f(2) ns[folded pr_def], of q] by (simp add: slot_words_def)
    then show ?thesis using t[of q] mono by (auto simp add: terminals_ok_def)
  next
    case True
    show ?thesis unfolding terminals_ok_def True
    proof (intro ballI impI)
      fix w assume w: "w \<in> slot_words m' pr" and nr: "\<not> isBlockRef w" and ni: "\<not> isInvalid w"
      from w f(5) consider "w \<in> slot_words m pr" | "w = 0" | "w = encodeValue vi (Prefix_Bits net)"
        | j where "w = encodeBlockRef j" by blast
      then show "fst (decodeValue w) < valueCount m'"
      proof cases
        case 1
        then show ?thesis using t[of pr] nr ni mono by (auto simp add: terminals_ok_def)
      next
        case 2
        then show ?thesis using ni by simp
      next
        case 3
        have "vi mod 2 ^ 24 \<le> vi" by simp
        then show ?thesis using vi unfolding 3 fst_decode_encodeValue by simp
      next
        case 4
        then show ?thesis using nr by (simp add: encodeBlockRef_isBlockRef)
      qed
    qed
  qed
  with vm' show ?thesis by simp
qed

lemma Insert_block_refs_ok:
  assumes ins: "Insert m net val = Some m'" and av: "addValue m val = (m1, vi)"
    and vi: "vi < 2 ^ 30" and bits: "- 1 \<le> Prefix_Bits net" "Prefix_Bits net \<le> 128"
    and t: "\<And>q. block_refs_ok m q"
    and ns: "sharedCount m (family (Prefix_Addr net)) = 0"
  shows "block_refs_ok m' q"
proof -
  define pr where "pr = family (Prefix_Addr net)"
  note f = Insert_frame[OF ins av, folded pr_def]
  show ?thesis
  proof (cases "q = pr")
    case False
    then have "slot_words m' q = slot_words m q" "blocks m' q = blocks m q"
      using untouched_blocks[OF f(2) ns[folded pr_def], of q] by (simp_all add: slot_words_def)
    then show ?thesis using t[of q] by (auto simp add: block_refs_ok_def)
  next
    case True
    show ?thesis unfolding block_refs_ok_def True
    proof (intro ballI impI)
      fix w assume w: "w \<in> slot_words m' pr" and r: "isBlockRef w"
      from w f(5) consider "w \<in> slot_words m pr" | "w = 0" | "w = encodeValue vi (Prefix_Bits net)"
        | j where "w = encodeBlockRef j" "j < length (blocks m' pr)" by auto
      then show "decodeBlockRef w < length (blocks m' pr)"
      proof cases
        case 1
        then show ?thesis using t[of pr] r f(3) by (auto simp add: block_refs_ok_def)
      next
        case 2
        then show ?thesis using r by simp
      next
        case 3
        then show ?thesis using r encodeValue_not_blockRef[OF vi bits] by simp
      next
        case 4
        have "j mod 2 ^ 30 \<le> j" by simp
        then show ?thesis using 4 by (simp add: decode_encodeBlockRef)
      qed
    qed
  qed
qed

lemma New_invariants:
  "valuesMap_ok New" "terminals_ok New q" "block_refs_ok New q"
  by (simp_all add: valuesMap_ok_def terminals_ok_def block_refs_ok_def slot_words_def blocks_def
      New_def shared_def)

lemma reachable_values:
  "reachable m \<Longrightarrow> valuesMap_ok m \<and> (\<forall>q. terminals_ok m q) \<and> sharedValueCount m = 0"
proof (induction rule: reachable.induct)
  case init
  then show ?case using New_invariants by (simp add: New_def)
next
  case (step m net val m')
  obtain m1 vi where av: "addValue m val = (m1, vi)" by (cases "addValue m val")
  have "sharedValueCount m' = sharedValueCount m1"
    using Insert_frame(1)[OF step(4) av] by (simp add: valuePart_def)
  then show ?case
    using Insert_terminals_ok[OF step(4) _ _ reachable_no_shared(1)[OF step(1)]] step.IH
      addValue_frame(6)[OF av] by simp
qed

lemma Insert_revValues_mono:
  assumes "Insert m net val = Some m'"
  shows "length (revValues m) \<le> length (revValues m')"
proof -
  obtain m1 vi where av: "addValue m val = (m1, vi)" by (cases "addValue m val")
  have "revValues m' = revValues m1"
    using Insert_frame(1)[OF assms av] by (simp add: valuePart_def)
  then show ?thesis using addValue_frame(9)[OF av] by auto
qed

lemma reachable_block_refs:
  "reachable m \<Longrightarrow> length (revValues m) \<le> 2 ^ 30 \<Longrightarrow> block_refs_ok m q"
proof (induction arbitrary: q rule: reachable.induct)
  case init
  show ?case by (rule New_invariants)
next
  case (step m net val m')
  obtain m1 vi where av: "addValue m val = (m1, vi)" by (cases "addValue m val")
  have len: "length (revValues m) \<le> 2 ^ 30"
    using Insert_revValues_mono[OF step(4)] step.prems by simp
  have rv: "revValues m' = revValues m1" "sharedValueCount m' = sharedValueCount m1"
    using Insert_frame(1)[OF step(4) av] by (simp_all add: valuePart_def)
  from reachable_values[OF step(1)] have vm: "valuesMap_ok m" and sc: "sharedValueCount m = 0" by simp_all
  have "vi < valueCount m1" using addValue_frame(10)[OF av vm] by simp
  also have "\<dots> = length (revValues m')"
    using rv addValue_frame(6)[OF av] sc by (simp add: valueCount_def)
  finally have vi: "vi < 2 ^ 30" using step.prems by simp
  show ?case
    by (rule Insert_block_refs_ok[OF step(4) av vi step(2,3) step.IH[OF len]
          reachable_no_shared(1)[OF step(1)]])
qed

section \<open>Longest-prefix match and insertion order (C1, C2)\<close>

text \<open>
  C1 (the code does not meet it).  The claim: after any insertions into a trie made by
  \<open>New\<close>, \<open>Lookup\<close> of an address returns the value of the longest inserted prefix that
  contains it (\<open>longest_match\<close>, which follows the claim's words).  At the input below the
  code answers not-found although \<open>10.0.0.0/8\<close> contains \<open>10.1.2.1\<close>: \<open>propagateValue\<close> fills
  the empty slots of the child block under slot 10 but does not descend into the
  grandchild that \<open>10.1.1.0/24\<close> created.
\<close>

theorem C1_failing_input:
  "LookupAfter [(PrefixFrom (Addr4 [10, 1, 1, 0]) 24, ''A''), (PrefixFrom (Addr4 [10, 0, 0, 0]) 8, ''B'')]
     (Addr4 [10, 1, 2, 1]) = Some ('''', False)
   \<and> longest_match [(PrefixFrom (Addr4 [10, 1, 1, 0]) 24, ''A''), (PrefixFrom (Addr4 [10, 0, 0, 0]) 8, ''B'')]
     (Addr4 [10, 1, 2, 1]) = (''B'', True)"
proof
  show "LookupAfter [(PrefixFrom (Addr4 [10, 1, 1, 0]) 24, ''A''), (PrefixFrom (Addr4 [10, 0, 0, 0]) 8, ''B'')]
     (Addr4 [10, 1, 2, 1]) = Some ('''', False)"
    by code_simp
  show "longest_match [(PrefixFrom (Addr4 [10, 1, 1, 0]) 24, ''A''), (PrefixFrom (Addr4 [10, 0, 0, 0]) 8, ''B'')]
     (Addr4 [10, 1, 2, 1]) = (''B'', True)"
    by (simp add: longest_match_def Prefix_Contains_def addr_nat_def)
qed

text \<open>
  C2 (the code does not meet it).  The claim: every order of insertion gives the same
  lookups as the order of descending prefix length.  The two orders of the same two
  bindings disagree at \<open>10.1.2.1\<close>: descending order answers not-found, ascending order
  answers \<open>B\<close>.
\<close>

theorem C2_failing_input:
  "LookupAfter [(PrefixFrom (Addr4 [10, 1, 1, 0]) 24, ''A''), (PrefixFrom (Addr4 [10, 0, 0, 0]) 8, ''B'')]
     (Addr4 [10, 1, 2, 1]) = Some ('''', False)
   \<and> LookupAfter [(PrefixFrom (Addr4 [10, 0, 0, 0]) 8, ''B''), (PrefixFrom (Addr4 [10, 1, 1, 0]) 24, ''A'')]
     (Addr4 [10, 1, 2, 1]) = Some (''B'', True)"
  by code_simp

section \<open>Lookup after insert (C3)\<close>


section \<open>Index capacity (C5)\<close>

lemma overflow_load: "NewWithSharedStorage overflow_image [] = Ok overflow_trie"
  apply (simp add: NewWithSharedStorage_def overflow_image_def overflow_trie_def headerSize_def
      readHeader_def rd32_def magicNumber_def currentVersion_def Let_def New_def blockSize_def)
  apply (auto simp add: fun_eq_iff split: proto.splits)
  done

text \<open>
  C5, as stated, fails: nothing checks the capacity of the index fields.  The 36-byte image
  \<open>overflow_image\<close> declares 2^24 values of slot size 0 and loads without error; the next
  value gets index 16777216, and the slot written for it decodes to index 0.
\<close>

theorem C5_counterexample:
  "NewWithSharedStorage overflow_image [] = Ok overflow_trie
   \<and> snd (addValue overflow_trie ''x'') = 16777216
   \<and> map_option (\<lambda>m. getValue m v4LPM 0 10)
        (Insert overflow_trie (PrefixFrom (Addr4 [10, 0, 0, 0]) 8) ''x'') = Some (Some 0x09000000)
   \<and> decodeValue 0x09000000 = (0, 8)"
proof (intro conjI)
  show "NewWithSharedStorage overflow_image [] = Ok overflow_trie" by (rule overflow_load)
  show "snd (addValue overflow_trie ''x'') = 16777216"
    by (simp add: addValue_def overflow_trie_def New_def)
  show "map_option (\<lambda>m. getValue m v4LPM 0 10)
        (Insert overflow_trie (PrefixFrom (Addr4 [10, 0, 0, 0]) 8) ''x'') = Some (Some 0x09000000)"
    by (simp add: Insert_def addValue_def New_def overflow_trie_def propagateValue_def propagateStep_def
        getValue_def setValue_def isBlockRef_def isInvalid_def blockRefMask_def encodeValue_def
        prefixLenShift_def shared_def)
  show "decodeValue 0x09000000 = (0, 8)"
    by (simp add: decodeValue_def prefixLenShift_def valueIndexMask_def)
qed

lemma example_trie_Insert:
  "Insert New (PrefixFrom (Addr4 [10, 1, 1, 0]) 24) ''A'' = Some example_trie"
proof -
  have "Insert New (PrefixFrom (Addr4 [10, 1, 1, 0]) 24) ''A'' \<noteq> None" by code_simp
  then show ?thesis by (auto simp add: example_trie_def)
qed

lemma slot_words_getValue:
  "w \<in> slot_words m pr \<longleftrightarrow> (\<exists>b s. getValue m pr b s = Some w)"
proof
  assume "w \<in> slot_words m pr"
  then obtain blk s where "blk \<in> set (blocks m pr)" "w = blk s"
    by (auto simp add: slot_words_def)
  then obtain b where "b < length (blocks m pr)" "blocks m pr ! b = blk"
    by (auto simp add: in_set_conv_nth)
  with \<open>w = blk s\<close> have "getValue m pr b s = Some w" by (simp add: getValue_blocks)
  then show "\<exists>b s. getValue m pr b s = Some w" by blast
next
  assume "\<exists>b s. getValue m pr b s = Some w"
  then show "w \<in> slot_words m pr" using getValue_in_slot_words by blast
qed

lemma decode_encodeValue:
  assumes "vi < 2 ^ 24" "- 1 \<le> pl" "pl \<le> 254"
  shows "decodeValue (encodeValue vi pl) = (vi, pl)"
proof -
  have "fst (decodeValue (encodeValue vi pl)) = vi"
    using assms(1) by (simp add: fst_decode_encodeValue)
  with snd_decode_encodeValue[OF assms] show ?thesis
    by (simp add: prod_eq_iff)
qed

text \<open>
  C5, amended: \<open>Insert\<close> checks no capacity.  While the index assigned to the value is below
  2^24, the prefix length is between 0 and 128 and the family has at most 2^30 blocks
  after the call, every slot of the family is, after the \<open>Insert\<close>, a word that some slot
  held before, or empty, or a terminal that decodes to exactly the assigned value index and
  the prefix length, or a block reference that decodes to exactly the index of a block this
  call appended.
\<close>

theorem C5_slots_within_capacity:
  assumes "Insert m net val = Some m'"
    and "snd (addValue m val) < 2 ^ 24"
    and "0 \<le> Prefix_Bits net" and "Prefix_Bits net \<le> 128"
    and "pr = (if Is6 (Prefix_Addr net) then v6LPM else v4LPM)"
    and "length (shared m' pr) + length (dynamic m' pr) \<le> 2 ^ 30"
    and "getValue m' pr b s = Some w"
  shows "(\<exists>b0 s0. getValue m pr b0 s0 = Some w) \<or> w = 0
       \<or> (\<not> isBlockRef w \<and> \<not> isInvalid w
            \<and> decodeValue w = (snd (addValue m val), Prefix_Bits net))
       \<or> (isBlockRef w \<and> length (shared m pr) + length (dynamic m pr) \<le> decodeBlockRef w
            \<and> decodeBlockRef w < length (shared m' pr) + length (dynamic m' pr))"
proof -
  obtain m1 vi where av: "addValue m val = (m1, vi)" by (cases "addValue m val")
  with assms(2) have vi: "vi < 2 ^ 24" by simp
  then have vi30: "vi < 2 ^ 30" by simp
  have pr: "pr = family (Prefix_Addr net)" using assms(5) by (simp add: family_def)
  note f = Insert_frame[OF assms(1) av, folded pr]
  from getValue_in_slot_words[OF assms(7)] f(5)
  consider "w \<in> slot_words m pr" | "w = 0" | "w = encodeValue vi (Prefix_Bits net)"
    | j where "w = encodeBlockRef j" "length (blocks m pr) \<le> j" "j < length (blocks m' pr)"
    by auto
  then show ?thesis
  proof cases
    case 1
    then show ?thesis by (simp add: slot_words_getValue)
  next
    case 2
    then show ?thesis by simp
  next
    case 3
    have "\<not> isBlockRef w" unfolding 3
      using assms(3,4) by (intro encodeValue_not_blockRef[OF vi30]) simp_all
    moreover have "\<not> isInvalid w" unfolding 3
      using assms(3,4) by (intro encodeValue_nonzero) simp_all
    moreover have "decodeValue w = (vi, Prefix_Bits net)" unfolding 3
      using assms(3,4) by (intro decode_encodeValue[OF vi]) simp_all
    ultimately show ?thesis using av by simp
  next
    case 4
    have "j < 2 ^ 30" using 4(3) assms(6) by (simp add: total_blocks)
    then have "decodeBlockRef w = j" unfolding 4(1) by (simp add: decode_encodeBlockRef)
    then show ?thesis using 4 by (simp add: total_blocks encodeBlockRef_isBlockRef)
  qed
qed

text \<open>The theorem of C5 at the insertion of \<open>10.1.1.0/24\<close> into the empty trie.\<close>

theorem C5_witness:
  "Insert New (PrefixFrom (Addr4 [10, 1, 1, 0]) 24) ''A'' = Some example_trie
   \<and> snd (addValue New ''A'') < 2 ^ 24
   \<and> length (shared example_trie v4LPM) + length (dynamic example_trie v4LPM) \<le> 2 ^ 30
   \<and> getValue example_trie v4LPM 0 10 = Some (encodeBlockRef 1)
   \<and> isBlockRef (encodeBlockRef 1)
   \<and> length (shared New v4LPM) + length (dynamic New v4LPM) \<le> decodeBlockRef (encodeBlockRef 1)
   \<and> decodeBlockRef (encodeBlockRef 1)
        < length (shared example_trie v4LPM) + length (dynamic example_trie v4LPM)"
proof -
  let ?net = "PrefixFrom (Addr4 [10, 1, 1, 0]) 24"
  have a: "snd (addValue New ''A'') < 2 ^ 24" by (simp add: addValue_def New_def)
  have "length (shared example_trie v4LPM) = 0" "length (dynamic example_trie v4LPM) = 3"
    unfolding example_trie_def by code_simp+
  then have l: "length (shared example_trie v4LPM) + length (dynamic example_trie v4LPM) \<le> 2 ^ 30"
    by simp
  have g: "getValue example_trie v4LPM 0 10 = Some (encodeBlockRef 1)"
    unfolding example_trie_def by code_simp
  have old: "\<not> (\<exists>b0 s0. getValue New v4LPM b0 s0 = Some (encodeBlockRef 1))"
    by (auto simp add: getValue_def New_def shared_def encodeBlockRef_def blockRefMask_def
        split: if_splits)
  have nz: "encodeBlockRef 1 \<noteq> 0" by (simp add: encodeBlockRef_def blockRefMask_def)
  have i: "isBlockRef (encodeBlockRef 1)" by (rule encodeBlockRef_isBlockRef)
  from C5_slots_within_capacity[OF example_trie_Insert a _ _ _ l g] old nz i
  have "length (shared New v4LPM) + length (dynamic New v4LPM) \<le> decodeBlockRef (encodeBlockRef 1)
      \<and> decodeBlockRef (encodeBlockRef 1)
        < length (shared example_trie v4LPM) + length (dynamic example_trie v4LPM)"
    by simp
  with example_trie_Insert a l g i show ?thesis by simp
qed

section \<open>Referenced blocks exist (C8)\<close>

text \<open>
  C8, amended: in every trie reachable from \<open>New\<close> by \<open>Insert\<close> calls that holds at most
  2^30 values, every slot that is a block reference decodes to an index below the number
  of blocks of its family (shared plus dynamic).  With more values a terminal slot spills
  into the two marker bits.
\<close>

theorem C8_block_references_exist:
  assumes "reachable m" and "length (revValues m) \<le> 2 ^ 30"
    and "getValue m pr b s = Some w" and "isBlockRef w"
  shows "decodeBlockRef w < length (shared m pr) + length (dynamic m pr)"
  using reachable_block_refs[OF assms(1,2), of pr] getValue_in_slot_words[OF assms(3)] assms(4)
  by (simp add: block_refs_ok_def total_blocks)

text \<open>The theorem of C8 at the trie holding \<open>10.1.1.0/24\<close>: slot 10 of the root refers to block 1 of 3.\<close>

theorem C8_witness:
  "reachable example_trie \<and> length (revValues example_trie) \<le> 2 ^ 30
   \<and> getValue example_trie v4LPM 0 10 = Some (encodeBlockRef 1) \<and> isBlockRef (encodeBlockRef 1)
   \<and> decodeBlockRef (encodeBlockRef 1) < length (shared example_trie v4LPM) + length (dynamic example_trie v4LPM)"
proof -
  have r: "reachable example_trie"
    by (rule reachable.step[OF reachable.init _ _ example_trie_Insert]) simp_all
  have "revValues example_trie = [''A'']"
    unfolding example_trie_def by code_simp
  then have l: "length (revValues example_trie) \<le> 2 ^ 30" by simp
  have g: "getValue example_trie v4LPM 0 10 = Some (encodeBlockRef 1)"
    unfolding example_trie_def by code_simp
  have i: "isBlockRef (encodeBlockRef 1)" by (rule encodeBlockRef_isBlockRef)
  from C8_block_references_exist[OF r l g i] r l g i show ?thesis by simp
qed

lemma int64_id: "- (2 ^ 63) \<le> x \<Longrightarrow> x < 2 ^ 63 \<Longrightarrow> int64 x = x"
  unfolding int64_def sint_sbintrunc'
  by (rule signed_take_bit_int_eq_self) simp_all

lemma int_less_pow63: "n < 2 ^ 63 \<Longrightarrow> int n < 2 ^ 63"
proof -
  assume "n < 2 ^ 63"
  then have "int n < int (2 ^ 63)" by (simp only: of_nat_less_iff)
  then show ?thesis by simp
qed

lemma int64_nat: "n < 2 ^ 63 \<Longrightarrow> int64 (int n) = int n"
proof (rule int64_id)
  have "- (2 ^ 63) \<le> (0::int)" by simp
  also have "0 \<le> int n" by (rule of_nat_0_le_iff)
  finally show "- (2 ^ 63) \<le> int n" .
qed (rule int_less_pow63)

lemma uint_prod_nat: "uint (b::u32) * uint (c::u32) = int (unat b * unat c)"
  by simp

lemma uint_plus_nat: "uint (a::u32) + int m = int (unat a + m)"
  by simp

lemma valuesEnd_exact:
  assumes "unat off + unat cnt * unat sz < 2 ^ 63"
  shows "int64 (uint (off::u32) + int64 (uint (cnt::u32) * uint (sz::u32))) = int (unat off + unat cnt * unat sz)"
proof -
  have "unat cnt * unat sz < 2 ^ 63" using assms by simp
  then have "int64 (uint cnt * uint sz) = int (unat cnt * unat sz)"
    unfolding uint_prod_nat by (rule int64_nat)
  then have "int64 (uint off + int64 (uint cnt * uint sz)) = int64 (int (unat off + unat cnt * unat sz))"
    by (simp only: uint_plus_nat)
  also have "\<dots> = int (unat off + unat cnt * unat sz)"
    using assms by (rule int64_nat)
  finally show ?thesis .
qed

lemma int_less_region:
  "(int n < uint (a::u32) + uint (b::u32) * uint (c::u32)) = (n < unat a + unat b * unat c)"
  by (simp only: uint_prod_nat uint_plus_nat of_nat_less_iff)

text \<open>
  C6, as stated, fails: the image \<open>emptySlot_image\<close> (36 bytes) declares one value of slot
  size 0 at offset 1000, a region whose count is nonzero and which lies behind the end of
  the buffer, and loads without error.
\<close>

theorem C6_counterexample:
  "returnsValue (NewWithSharedStorage emptySlot_image [])
   \<and> ValueCount (readHeader emptySlot_image) \<noteq> 0
   \<and> length emptySlot_image
        < unat (ValuesOffset (readHeader emptySlot_image))
          + unat (ValueCount (readHeader emptySlot_image))
            * unat (ValueSlotSize (readHeader emptySlot_image))"
  by (simp add: returnsValue_def NewWithSharedStorage_def emptySlot_image_def headerSize_def
      readHeader_def rd32_def magicNumber_def currentVersion_def Let_def blockSize_def)

text \<open>
  C6, amended: for a header whose value region ends below 2^63 (so that the size
  computation does not wrap), \<open>NewWithSharedStorage\<close> returns an error if and only if the
  buffer is shorter than the 36-byte header, or the magic is not 0x4C504D00, or the version is
  not 1, or a block region of nonzero count ends behind the buffer, or the value region,
  when both its count and its slot size are nonzero, ends behind the buffer; otherwise it
  returns a trie.
\<close>

theorem C6_load_error_iff:
  assumes "headerSize \<le> length storage \<longrightarrow>
     unat (ValuesOffset (readHeader storage))
       + unat (ValueCount (readHeader storage)) * unat (ValueSlotSize (readHeader storage)) < 2 ^ 63"
  shows "(returnsError (NewWithSharedStorage storage spare) \<longleftrightarrow>
            length storage < 36
          \<or> Magic (readHeader storage) \<noteq> 0x4C504D00
          \<or> Version (readHeader storage) \<noteq> 1
          \<or> (V4BlockCount (readHeader storage) \<noteq> 0
               \<and> length storage < unat (V4BlocksOffset (readHeader storage))
                                    + unat (V4BlockCount (readHeader storage)) * 1024)
          \<or> (V6BlockCount (readHeader storage) \<noteq> 0
               \<and> length storage < unat (V6BlocksOffset (readHeader storage))
                                    + unat (V6BlockCount (readHeader storage)) * 1024)
          \<or> (ValueCount (readHeader storage) \<noteq> 0 \<and> ValueSlotSize (readHeader storage) \<noteq> 0
               \<and> length storage < unat (ValuesOffset (readHeader storage))
                                    + unat (ValueCount (readHeader storage))
                                      * unat (ValueSlotSize (readHeader storage))))
       \<and> (\<not> returnsError (NewWithSharedStorage storage spare) \<longrightarrow>
            returnsValue (NewWithSharedStorage storage spare))"
proof (cases "length storage < 36")
  case True
  then show ?thesis
    by (simp add: NewWithSharedStorage_def headerSize_def returnsError_def)
next
  case False
  define h where "h = readHeader storage"
  from False assms have "unat (ValuesOffset h) + unat (ValueCount h) * unat (ValueSlotSize h) < 2 ^ 63"
    by (simp add: headerSize_def h_def)
  note ve = valuesEnd_exact[OF this]
  have pos: "\<And>w::u32. (0 < w) = (w \<noteq> 0)" by (simp add: word_greater_zero_iff)
  note l1 = int_less_region
  have l2: "\<And>(a::u32) (b::u32) (c::u32). uint a \<le> uint a + uint b * uint c"
    by simp
  show ?thesis
    using False unfolding NewWithSharedStorage_def Let_def h_def[symmetric] ve
    by (auto simp add: headerSize_def returnsError_def returnsValue_def magicNumber_def
        currentVersion_def blockSize_def pos l1 l2)
qed

text \<open>The theorem of C6 at the image that declares 2^24 values of slot size 0.\<close>

theorem C6_witness:
  "headerSize \<le> length overflow_image
   \<and> unat (ValuesOffset (readHeader overflow_image))
       + unat (ValueCount (readHeader overflow_image)) * unat (ValueSlotSize (readHeader overflow_image))
     < 2 ^ 63
   \<and> \<not> returnsError (NewWithSharedStorage overflow_image [])
   \<and> returnsValue (NewWithSharedStorage overflow_image [])"
proof -
  have h: "headerSize \<le> length overflow_image"
    by (simp add: overflow_image_def headerSize_def)
  have a: "headerSize \<le> length overflow_image \<longrightarrow>
     unat (ValuesOffset (readHeader overflow_image))
       + unat (ValueCount (readHeader overflow_image)) * unat (ValueSlotSize (readHeader overflow_image))
     < 2 ^ 63"
    by (simp add: overflow_image_def readHeader_def rd32_def)
  have "\<not> returnsError (NewWithSharedStorage overflow_image [])"
    by (simp add: overflow_load returnsError_def)
  with C6_load_error_iff[OF a] a h show ?thesis by simp
qed

lemma getValueByIndex_valuePart:
  "valuePart m' = valuePart m \<Longrightarrow> sharedValues m' = sharedValues m
     \<Longrightarrow> getValueByIndex m' i = getValueByIndex m i"
  by (simp add: valuePart_def getValueByIndex_def Let_def)


lemma getValueByIndex_addValue:
  assumes "addValue m val = (m1, vi)" "i < valueCount m"
  shows "getValueByIndex m1 i = getValueByIndex m i"
proof -
  note a = addValue_frame[OF assms(1)]
  show ?thesis
  proof (cases "i < sharedValueCount m")
    case True
    then show ?thesis using a(3,5,6) by (simp add: getValueByIndex_def Let_def)
  next
    case False
    with assms(2) have d: "i - sharedValueCount m < length (revValues m)"
      by (simp add: valueCount_def)
    then have "revValues m1 ! (i - sharedValueCount m) = revValues m ! (i - sharedValueCount m)"
      and "i - sharedValueCount m < length (revValues m1)"
      using a(9) by (auto simp add: nth_append)
    then show ?thesis using False d a(6) by (simp add: getValueByIndex_def Let_def)
  qed
qed

lemma LookupLoop_cong:
  assumes "blocks m' pr = blocks m pr"
    and "\<And>w. w \<in> slot_words m pr \<Longrightarrow> \<not> isBlockRef w \<Longrightarrow> \<not> isInvalid w
           \<Longrightarrow> getValueByIndex m' (fst (decodeValue w)) = getValueByIndex m (fst (decodeValue w))"
  shows "LookupLoop m' pr b bytes = LookupLoop m pr b bytes"
proof (induction bytes arbitrary: b)
  case Nil
  show ?case by simp
next
  case (Cons x rest)
  have g: "getValue m' pr b x = getValue m pr b x"
    using assms(1) by (simp add: getValue_blocks)
  show ?case
  proof (cases "getValue m pr b x")
    case None
    then show ?thesis using g by simp
  next
    case (Some v)
    then show ?thesis
      using g Cons.IH assms(2)[OF getValue_in_slot_words[OF Some]] by simp
  qed
qed

lemma Insert_other_family_Lookup:
  assumes ins: "Insert m net val = Some m'" and fam: "Is6 (Prefix_Addr net) \<noteq> Is6 a"
    and t: "terminals_ok m (family a)"
    and ap: "apart m (family (Prefix_Addr net)) (family a)"
  shows "Lookup m' a = Lookup m a"
proof -
  obtain m1 vi where av: "addValue m val = (m1, vi)" by (cases "addValue m val")
  have ne: "family a \<noteq> family (Prefix_Addr net)" using fam by (auto simp add: family_def)
  note f = Insert_frame[OF ins av]
  note u = untouched_apart[OF f(2) ap ne]
  have sv: "sharedValues m' = sharedValues m1" using u(2) addValue_frame(3)[OF av] by simp
  have "LookupLoop m' (family a) 0 (AsSlice a) = LookupLoop m (family a) 0 (AsSlice a)"
  proof (rule LookupLoop_cong)
    show "blocks m' (family a) = blocks m (family a)" by (rule u(1))
  next
    fix w assume "w \<in> slot_words m (family a)" "\<not> isBlockRef w" "\<not> isInvalid w"
    with t have "fst (decodeValue w) < valueCount m" by (simp add: terminals_ok_def)
    from getValueByIndex_addValue[OF av this] getValueByIndex_valuePart[OF f(1) sv]
    show "getValueByIndex m' (fst (decodeValue w)) = getValueByIndex m (fst (decodeValue w))"
      by simp
  qed
  then show ?thesis by (simp add: Lookup_def family_def)
qed

section \<open>Family isolation (C7, C10)\<close>

text \<open>
  C7, as stated, fails for a trie that holds a terminal slot whose value index is not
  stored: the image \<open>dangling_image\<close> has one IPv6 block full of terminals for value 0 and
  no value, so \<open>2001::\<close> is not found; after the IPv4 insertion of \<open>10.0.0.0/8\<close> the value
  table has an entry 0 and the same IPv6 lookup answers \<open>x\<close>.
\<close>

theorem C7_counterexample:
  "(case NewWithSharedStorage dangling_image [] of
      Ok m \<Rightarrow>
        (Lookup m (Addr6 [0x20, 1, 0, 0, 0, 0, 0, 0, 0, 0, 0, 0, 0, 0, 0, 0]),
         case Insert m (PrefixFrom (Addr4 [10, 0, 0, 0]) 8) ''x'' of
           Some m' \<Rightarrow> Lookup m' (Addr6 [0x20, 1, 0, 0, 0, 0, 0, 0, 0, 0, 0, 0, 0, 0, 0, 0])
         | None \<Rightarrow> None)
    | _ \<Rightarrow> (None, None))
   = (Some ('''', False), Some (''x'', True))"
  by code_simp

text \<open>
  C7, amended: an \<open>Insert\<close> of a prefix of one family leaves \<open>Lookup\<close> of every address of
  the other family unchanged (an IPv4 insert does not change IPv6 lookups, and an IPv6
  insert does not change IPv4 lookups) in every trie built from \<open>New\<close> by \<open>Insert\<close> calls,
  and in every trie in which each terminal slot of the looked-up family carries the index
  of a stored value and the shared blocks of the inserted family, if there are any, overlap
  neither the shared blocks of the looked-up family nor the shared values in the caller's
  buffer (\<open>apart\<close>).
\<close>

theorem C7_family_isolation:
  assumes "Insert m net val = Some m'"
    and "Is6 (Prefix_Addr net) \<noteq> Is6 a"
    and "reachable m \<or>
         ((\<forall>b s w. getValue m (if Is6 a then v6LPM else v4LPM) b s = Some w
            \<longrightarrow> \<not> isBlockRef w \<longrightarrow> \<not> isInvalid w
            \<longrightarrow> fst (decodeValue w) < sharedValueCount m + length (revValues m))
          \<and> apart m (if Is6 (Prefix_Addr net) then v6LPM else v4LPM) (if Is6 a then v6LPM else v4LPM))"
  shows "Lookup m' a = Lookup m a"
proof -
  have "terminals_ok m (family a) \<and> apart m (family (Prefix_Addr net)) (family a)"
    using assms(3)
  proof
    assume "reachable m"
    then show ?thesis
      using reachable_values[of m] reachable_no_shared(1)[of m] by (simp add: apart_no_shared)
  next
    assume a: "(\<forall>b s w. getValue m (if Is6 a then v6LPM else v4LPM) b s = Some w
            \<longrightarrow> \<not> isBlockRef w \<longrightarrow> \<not> isInvalid w
            \<longrightarrow> fst (decodeValue w) < sharedValueCount m + length (revValues m))
          \<and> apart m (if Is6 (Prefix_Addr net) then v6LPM else v4LPM) (if Is6 a then v6LPM else v4LPM)"
    then have h: "\<And>b s w. getValue m (family a) b s = Some w \<Longrightarrow> \<not> isBlockRef w
        \<Longrightarrow> \<not> isInvalid w \<Longrightarrow> fst (decodeValue w) < valueCount m"
      by (simp add: family_def valueCount_def)
    have "terminals_ok m (family a)"
      unfolding terminals_ok_def
    proof (intro ballI impI)
      fix w assume "w \<in> slot_words m (family a)" and n: "\<not> isBlockRef w" "\<not> isInvalid w"
      then obtain b s where "getValue m (family a) b s = Some w"
        unfolding slot_words_getValue by blast
      from h[OF this n] show "fst (decodeValue w) < valueCount m" .
    qed
    then show ?thesis using a by (simp add: family_def)
  qed
  then show ?thesis using Insert_other_family_Lookup[OF assms(1,2)] by blast
qed

text \<open>
  The two families are not apart in the image \<open>overlap_image\<close>, whose header places the one
  IPv4 block and the one IPv6 block at the same offset 36: the blocks are views of the same
  bytes, and the IPv4 insertion of \<open>10.0.0.0/8\<close> makes the IPv6 address \<open>a00::\<close> found.
\<close>

lemma overlapping_blocks_alias:
  "(case NewWithSharedStorage overlap_image [] of
      Ok m \<Rightarrow>
        (Lookup m (Addr6 [0x0a, 0, 0, 0, 0, 0, 0, 0, 0, 0, 0, 0, 0, 0, 0, 0]),
         case Insert m (PrefixFrom (Addr4 [10, 0, 0, 0]) 8) ''x'' of
           Some m' \<Rightarrow> Lookup m' (Addr6 [0x0a, 0, 0, 0, 0, 0, 0, 0, 0, 0, 0, 0, 0, 0, 0, 0])
         | None \<Rightarrow> None)
    | _ \<Rightarrow> (None, None))
   = (Some ('''', False), Some (''x'', True))"
  by code_simp

lemma example_trie_reachable: "reachable example_trie"
  by (rule reachable.step[OF reachable.init _ _ example_trie_Insert]) simp_all

text \<open>
  The theorem of C7 at the insertion of \<open>2001:db8::/32\<close> into the trie that holds \<open>10.1.1.0/24\<close>:
  the IPv4 lookup of \<open>10.1.1.7\<close> is unchanged.
\<close>

theorem C7_witness:
  "Insert example_trie (PrefixFrom (Addr6 [0x20, 1, 0x0d, 0xb8, 0, 0, 0, 0, 0, 0, 0, 0, 0, 0, 0, 0]) 32) ''v6''
     = Some (the (Insert example_trie
                   (PrefixFrom (Addr6 [0x20, 1, 0x0d, 0xb8, 0, 0, 0, 0, 0, 0, 0, 0, 0, 0, 0, 0]) 32) ''v6''))
   \<and> Is6 (Prefix_Addr (PrefixFrom (Addr6 [0x20, 1, 0x0d, 0xb8, 0, 0, 0, 0, 0, 0, 0, 0, 0, 0, 0, 0]) 32))
       \<noteq> Is6 (Addr4 [10, 1, 1, 7])
   \<and> reachable example_trie
   \<and> Lookup (the (Insert example_trie
                   (PrefixFrom (Addr6 [0x20, 1, 0x0d, 0xb8, 0, 0, 0, 0, 0, 0, 0, 0, 0, 0, 0, 0]) 32) ''v6''))
        (Addr4 [10, 1, 1, 7]) = Lookup example_trie (Addr4 [10, 1, 1, 7])
   \<and> Lookup example_trie (Addr4 [10, 1, 1, 7]) = Some (''A'', True)"
proof -
  let ?net = "PrefixFrom (Addr6 [0x20, 1, 0x0d, 0xb8, 0, 0, 0, 0, 0, 0, 0, 0, 0, 0, 0, 0]) 32"
  have "Insert example_trie ?net ''v6'' \<noteq> None"
    unfolding example_trie_def by code_simp
  then have i: "Insert example_trie ?net ''v6'' = Some (the (Insert example_trie ?net ''v6''))"
    by auto
  have f: "Is6 (Prefix_Addr ?net) \<noteq> Is6 (Addr4 [10, 1, 1, 7])" by simp
  have l: "Lookup example_trie (Addr4 [10, 1, 1, 7]) = Some (''A'', True)"
    unfolding example_trie_def by code_simp
  from C7_family_isolation[OF i f disjI1[OF example_trie_reachable]] i f l example_trie_reachable
  show ?thesis by simp
qed



lemma rd32_shift:
  assumes "off + 4 \<le> length bs"
  shows "rd32 (pre @ bs @ post) (length pre + off) = rd32 bs off"
  using assms by (simp add: rd32_def nth_append)

lemma rd32_at: "rd32 (pre @ le32 w @ post) (length pre) = w"
  using rd32_shift[of 0 "le32 w" pre post] by (simp add: rd32_le32)

lemma concat_uniform_length:
  assumes "\<And>x. x \<in> set xs \<Longrightarrow> length (f x) = k"
  shows "length (concat (map f xs)) = k * length xs"
  using assms by (induction xs) simp_all

lemma concat_uniform_split:
  assumes "\<And>x. x \<in> set xs \<Longrightarrow> length (f x) = k" "i < length xs"
  shows "concat (map f xs) = concat (map f (take i xs)) @ f (xs ! i) @ concat (map f (drop (Suc i) xs))"
    and "length (concat (map f (take i xs))) = i * k"
proof -
  have "xs = take i xs @ xs ! i # drop (Suc i) xs"
    using assms(2) by (simp add: id_take_nth_drop)
  then have "concat (map f xs) = concat (map f (take i xs @ xs ! i # drop (Suc i) xs))" by simp
  then show "concat (map f xs) = concat (map f (take i xs)) @ f (xs ! i) @ concat (map f (drop (Suc i) xs))"
    by simp
  have "length (concat (map f (take i xs))) = k * length (take i xs)"
    by (rule concat_uniform_length) (auto dest: in_set_takeD assms(1))
  then show "length (concat (map f (take i xs))) = i * k"
    using assms(2) by (simp add: min_def mult.commute)
qed

lemma length_blockBytes [simp]: "length (blockBytes blk) = 1024"
proof -
  have "length (blockBytes blk) = 4 * length [0..<blockSize]"
    unfolding blockBytes_def by (rule concat_uniform_length) simp
  then show ?thesis by (simp add: blockSize_def)
qed

lemma rd32_blockBytes: "rd32 (blockBytes blk) (4 * unat s) = blk (s::u8)"
proof -
  let ?f = "\<lambda>i. le32 (blk (of_nat i))"
  have k: "unat s < length [0..<blockSize]"
    using u8_bound[of s] by (simp add: blockSize_def)
  note sp = concat_uniform_split[of "[0..<blockSize]" ?f 4 "unat s", OF _ k]
  have e: "blockBytes blk = concat (map ?f (take (unat s) [0..<blockSize])) @ le32 (blk s)
      @ concat (map ?f (drop (Suc (unat s)) [0..<blockSize]))"
    using sp(1) k unfolding blockBytes_def by simp
  have l: "length (concat (map ?f (take (unat s) [0..<blockSize]))) = 4 * unat s"
    using sp(2) by (simp add: mult.commute)
  show ?thesis
    using rd32_at[of "concat (map ?f (take (unat s) [0..<blockSize]))" "blk s"
        "concat (map ?f (drop (Suc (unat s)) [0..<blockSize]))"]
    unfolding e[symmetric] l .
qed

lemma blockAt_blockBytes: "blockAt (pre @ blockBytes blk @ post) (length pre) = blk"
proof (rule ext)
  fix s :: u8
  have "4 * unat s + 4 \<le> length (blockBytes blk)"
    using u8_bound[of s] by simp
  from rd32_shift[OF this, of pre post] show "blockAt (pre @ blockBytes blk @ post) (length pre) s = blk s"
    by (simp add: blockAt_def rd32_blockBytes)
qed

lemma blockAt_blocks:
  assumes "i < length bs"
  shows "blockAt (pre @ concat (map blockBytes bs) @ post) (length pre + i * 1024) = bs ! i"
proof -
  note sp = concat_uniform_split[of bs blockBytes 1024 i, OF _ assms]
  let ?A = "concat (map blockBytes (take i bs))"
  let ?B = "concat (map blockBytes (drop (Suc i) bs))"
  have "pre @ concat (map blockBytes bs) @ post = (pre @ ?A) @ blockBytes (bs ! i) @ (?B @ post)"
    using sp(1) by simp
  moreover have "length (pre @ ?A) = length pre + i * 1024" using sp(2) by simp
  ultimately show ?thesis
    using blockAt_blockBytes[of "pre @ ?A" "bs ! i" "?B @ post"] by simp
qed

lemma map_blockAt_blocks:
  "map (\<lambda>i. blockAt (pre @ concat (map blockBytes bs) @ post) (length pre + i * 1024)) [0..<length bs] = bs"
  by (rule nth_equalityI) (simp_all add: blockAt_blocks)

lemma length_headerBytes [simp]: "length (headerBytes h) = 36"
  by (simp add: headerBytes_def)

lemma rd32_append_left: "off + 4 \<le> length bs \<Longrightarrow> rd32 (bs @ post) off = rd32 bs off"
  by (simp add: rd32_def nth_append)

lemma readHeader_headerBytes: "readHeader (headerBytes h @ rest) = h"
proof -
  have r: "\<And>off. off + 4 \<le> 36 \<Longrightarrow> rd32 (headerBytes h @ rest) off = rd32 (headerBytes h) off"
    by (rule rd32_append_left) simp
  have f: "rd32 (headerBytes h) 0 = Magic h" "rd32 (headerBytes h) 4 = Version h"
    "rd32 (headerBytes h) 8 = V4BlockCount h" "rd32 (headerBytes h) 12 = V6BlockCount h"
    "rd32 (headerBytes h) 16 = ValueCount h" "rd32 (headerBytes h) 20 = ValueSlotSize h"
    "rd32 (headerBytes h) 24 = V4BlocksOffset h" "rd32 (headerBytes h) 28 = V6BlocksOffset h"
    "rd32 (headerBytes h) 32 = ValuesOffset h"
    unfolding headerBytes_def
    using rd32_at[of "[]" "Magic h"]
      rd32_at[of "le32 (Magic h)" "Version h"]
      rd32_at[of "le32 (Magic h) @ le32 (Version h)" "V4BlockCount h"]
      rd32_at[of "le32 (Magic h) @ le32 (Version h) @ le32 (V4BlockCount h)" "V6BlockCount h"]
      rd32_at[of "le32 (Magic h) @ le32 (Version h) @ le32 (V4BlockCount h) @ le32 (V6BlockCount h)" "ValueCount h"]
      rd32_at[of "le32 (Magic h) @ le32 (Version h) @ le32 (V4BlockCount h) @ le32 (V6BlockCount h) @ le32 (ValueCount h)" "ValueSlotSize h"]
      rd32_at[of "le32 (Magic h) @ le32 (Version h) @ le32 (V4BlockCount h) @ le32 (V6BlockCount h) @ le32 (ValueCount h) @ le32 (ValueSlotSize h)" "V4BlocksOffset h"]
      rd32_at[of "le32 (Magic h) @ le32 (Version h) @ le32 (V4BlockCount h) @ le32 (V6BlockCount h) @ le32 (ValueCount h) @ le32 (ValueSlotSize h) @ le32 (V4BlocksOffset h)" "V6BlocksOffset h"]
      rd32_at[of "le32 (Magic h) @ le32 (Version h) @ le32 (V4BlockCount h) @ le32 (V6BlockCount h) @ le32 (ValueCount h) @ le32 (ValueSlotSize h) @ le32 (V4BlocksOffset h) @ le32 (V6BlocksOffset h)" "ValuesOffset h" "[]"]
    by simp_all
  show ?thesis
    unfolding readHeader_def by (simp add: r f)
qed


lemma unat_of_nat32: "x < 2 ^ 32 \<Longrightarrow> unat (of_nat x :: u32) = x"
  by (simp add: unat_of_nat)

lemma of_nat32_pos: "0 < x \<Longrightarrow> x < 2 ^ 32 \<Longrightarrow> (0::u32) < of_nat x"
  using unat_of_nat32[of x] by (simp add: word_less_nat_alt)

lemma of_nat32_zero: "x = 0 \<Longrightarrow> \<not> (0::u32) < of_nat x"
  by simp

lemma string_of_bytes_of_string: "string_of_bytes (bytes_of_string v) = v"
proof -
  have "char_of (unat (of_nat (of_char c :: nat) :: u8)) = c" for c :: char
  proof -
    have "(of_char c :: nat) < 256" by simp
    then have "unat (of_nat (of_char c :: nat) :: u8) = of_char c"
      by (simp add: unat_of_nat)
    then show ?thesis by simp
  qed
  then show ?thesis
    by (simp add: string_of_bytes_def bytes_of_string_def map_idI)
qed

lemma length_bytes_of_string [simp]: "length (bytes_of_string v) = length v"
  by (simp add: bytes_of_string_def)

lemma dynamicMaxLen_Ok:
  assumes "\<And>v. v \<in> set vs \<Longrightarrow> length v \<le> 255"
  shows "\<exists>mx. dynamicMaxLen vs i mx0 = Ok mx \<and> mx0 \<le> mx \<and> (\<forall>v \<in> set vs. length v \<le> mx)
           \<and> (mx0 \<le> 255 \<longrightarrow> mx \<le> 255)"
  using assms
proof (induction vs arbitrary: i mx0)
  case Nil
  then show ?case by simp
next
  case (Cons v vs)
  let ?mx1 = "if length v > mx0 then length v else mx0"
  from Cons.prems have lv: "length v \<le> 255" by simp
  from Cons.IH[of "Suc i" ?mx1] Cons.prems
  obtain mx where "dynamicMaxLen vs (Suc i) ?mx1 = Ok mx" "?mx1 \<le> mx" "\<forall>v \<in> set vs. length v \<le> mx"
    "?mx1 \<le> 255 \<longrightarrow> mx \<le> 255" by auto
  with lv show ?case by (auto split: if_splits)
qed

lemma length_padTo: "length bs \<le> n \<Longrightarrow> length (padTo n bs) = n"
  by (simp add: padTo_def)

lemma padTo_exact: "length bs = n \<Longrightarrow> padTo n bs = bs"
  by (simp add: padTo_def)

lemma length_dynamicSlots:
  assumes "\<And>v. v \<in> set vs \<Longrightarrow> length v < slot"
  shows "length (dynamicSlots slot vs) = slot * length vs"
  unfolding dynamicSlots_def
  by (rule concat_uniform_length) (simp add: length_padTo assms Suc_leI)

lemma dynamicSlots_at:
  assumes "\<And>v. v \<in> set vs \<Longrightarrow> length v < slot" "i < length vs"
  shows "dynamicSlots slot vs ! (i * slot) = of_nat (length (vs ! i))"
    and "take (length (vs ! i)) (drop (i * slot + 1) (dynamicSlots slot vs)) = bytes_of_string (vs ! i)"
proof -
  let ?f = "\<lambda>val. padTo slot (of_nat (length val) # bytes_of_string val)"
  have u: "\<And>v. v \<in> set vs \<Longrightarrow> length (?f v) = slot"
    by (simp add: length_padTo assms(1) Suc_leI)
  note sp = concat_uniform_split[of vs ?f slot i, OF u assms(2)]
  let ?A = "concat (map ?f (take i vs))"
  let ?B = "concat (map ?f (drop (Suc i) vs))"
  let ?pad = "replicate (slot - Suc (length (vs ! i))) (0::u8)"
  have e: "dynamicSlots slot vs = ?A @ (of_nat (length (vs ! i)) # bytes_of_string (vs ! i) @ ?pad) @ ?B"
    using sp(1) by (simp add: dynamicSlots_def padTo_def)
  have l: "length ?A = i * slot" by (rule sp(2))
  show "dynamicSlots slot vs ! (i * slot) = of_nat (length (vs ! i))"
    unfolding e using l by (simp add: nth_append)
  show "take (length (vs ! i)) (drop (i * slot + 1) (dynamicSlots slot vs)) = bytes_of_string (vs ! i)"
    unfolding e using l by simp
qed

lemma getValueByIndex_dynamic:
  assumes "sharedValueCount m = 0"
  shows "getValueByIndex m i = (if i < length (revValues m) then (revValues m ! i, True) else ('''', False))"
  using assms by (simp add: getValueByIndex_def Let_def)

lemma getValueByIndex_packed:
  assumes sv: "sharedValues m' = dynamicSlots slot vs" and ss: "sharedValuesSlotSize m' = slot"
    and sc: "sharedValueCount m' = length vs" and rv: "revValues m' = []"
    and lt: "\<And>v. v \<in> set vs \<Longrightarrow> length v < slot" and le: "\<And>v. v \<in> set vs \<Longrightarrow> length v \<le> 255"
  shows "getValueByIndex m' i = (if i < length vs then stripEmpty (vs ! i, True) else ('''', False))"
proof (cases "i < length vs")
  case False
  then show ?thesis using sc rv by (simp add: getValueByIndex_def Let_def)
next
  case True
  then have vi: "vs ! i \<in> set vs" by simp
  have slot: "0 < slot" using lt[OF vi] by simp
  have len: "length (sharedValues m') = slot * length vs"
    unfolding sv by (rule length_dynamicSlots[OF lt])
  have ne: "sharedValues m' \<noteq> []" using len slot True by auto
  have "Suc i * slot \<le> length vs * slot" using True by (intro mult_le_mono1) simp
  then have fit: "i * slot + slot \<le> length (sharedValues m')" using len by (simp add: mult.commute)
  have "sharedValues m' ! (i * slot) = of_nat (length (vs ! i))"
    unfolding sv by (rule dynamicSlots_at(1)[OF lt True])
  then have b: "unat (sharedValues m' ! (i * slot)) = length (vs ! i)"
    using le[OF vi] by (simp add: unat_of_nat)
  have fit2: "i * slot + 1 + length (vs ! i) \<le> length (sharedValues m')"
    using fit lt[OF vi] by simp
  have pay: "take (length (vs ! i)) (drop (i * slot + 1) (sharedValues m')) = bytes_of_string (vs ! i)"
    unfolding sv by (rule dynamicSlots_at(2)[OF lt True])
  show ?thesis
  proof (cases "vs ! i = []")
    case e: True
    then show ?thesis
      using True sc ss ne slot fit b by (simp add: getValueByIndex_def Let_def stripEmpty_def)
  next
    case n: False
    then show ?thesis
      using True sc ss ne slot fit b fit2 pay
      by (simp add: getValueByIndex_def Let_def stripEmpty_def string_of_bytes_of_string not_less)
  qed
qed

lemma LookupLoop_strip:
  assumes "blocks m' pr = blocks m pr"
    and "\<And>i. getValueByIndex m' i = stripEmpty (getValueByIndex m i)"
  shows "LookupLoop m' pr b bytes = map_option stripEmpty (LookupLoop m pr b bytes)"
proof (induction bytes arbitrary: b)
  case Nil
  show ?case by (simp add: stripEmpty_def)
next
  case (Cons x rest)
  have g: "getValue m' pr b x = getValue m pr b x"
    using assms(1) by (simp add: getValue_blocks)
  show ?case
  proof (cases "getValue m pr b x")
    case None
    then show ?thesis using g by simp
  next
    case (Some v)
    then show ?thesis
      using g Cons.IH assms(2) by (simp add: stripEmpty_def)
  qed
qed


lemma PackToSharedStorage_dynamic:
  assumes sc: "sharedValueCount m = 0" and le: "\<And>v. v \<in> set (revValues m) \<Longrightarrow> length v \<le> 255"
  shows "\<exists>mx. mx \<le> 255 \<and> (\<forall>v \<in> set (revValues m). length v \<le> mx)
          \<and> PackToSharedStorage m =
              Ok (headerBytes (packedHeader (length (blocks m v4LPM)) (length (blocks m v6LPM))
                                 (length (revValues m)) (mx + 1))
                  @ concat (map blockBytes (blocks m v4LPM))
                  @ concat (map blockBytes (blocks m v6LPM))
                  @ dynamicSlots (mx + 1) (revValues m))"
proof -
  from dynamicMaxLen_Ok[of "revValues m" 0 0, OF le]
  obtain mx where mx: "dynamicMaxLen (revValues m) 0 0 = Ok mx" "\<forall>v \<in> set (revValues m). length v \<le> mx"
    "mx \<le> 255" by auto
  have "length (dynamicSlots (mx + 1) (revValues m)) = (mx + 1) * length (revValues m)"
    by (rule length_dynamicSlots) (use mx(2) in \<open>simp add: less_Suc_eq_le\<close>)
  then have pad: "padTo (length (revValues m) * (mx + 1)) (dynamicSlots (mx + 1) (revValues m))
      = dynamicSlots (mx + 1) (revValues m)"
    by (intro padTo_exact) (simp add: mult.commute)
  have "PackToSharedStorage m =
              Ok (headerBytes (packedHeader (length (blocks m v4LPM)) (length (blocks m v6LPM))
                                 (length (revValues m)) (mx + 1))
                  @ concat (map blockBytes (blocks m v4LPM))
                  @ concat (map blockBytes (blocks m v6LPM))
                  @ dynamicSlots (mx + 1) (revValues m))"
    unfolding PackToSharedStorage_def
    using sc mx(1) pad
    by (simp add: Let_def packedHeader_def blocks_def)
  with mx show ?thesis by blast
qed

lemma unat_of_nat32_eq: "w = of_nat k \<Longrightarrow> k < 2 ^ 32 \<Longrightarrow> k = k' \<Longrightarrow> unat (w::u32) = k'"
  using unat_of_nat32 by blast

lemma blockAt_append_left: "off + 1024 \<le> length bs \<Longrightarrow> blockAt (bs @ post) off = blockAt bs off"
proof (rule ext)
  fix s :: u8 assume "off + 1024 \<le> length bs"
  then have "off + 4 * unat s + 4 \<le> length bs" using u8_bound[of s] by simp
  then show "blockAt (bs @ post) off s = blockAt bs off s"
    by (simp add: blockAt_def rd32_append_left)
qed

lemma map_nth_append_drop:
  assumes "i + n \<le> length xs"
  shows "map (\<lambda>a. (xs @ ys) ! a) [i ..< i + n] = take n (drop i xs)"
  using assms by (intro nth_equalityI) (simp_all add: nth_append)

text \<open>The slices of a loaded trie.\<close>

lemma load_views:
  assumes "NewWithSharedStorage storage spare = Ok m'"
  shows "backing m' = (\<lambda>a. (storage @ spare) ! a)"
    and "sharedCount m' v4LPM = unat (V4BlockCount (readHeader storage))"
    and "sharedCount m' v6LPM = unat (V6BlockCount (readHeader storage))"
    and "0 < V4BlockCount (readHeader storage) \<Longrightarrow>
           sharedBase m' v4LPM = unat (V4BlocksOffset (readHeader storage))
           \<and> unat (V4BlocksOffset (readHeader storage))
               + unat (V4BlockCount (readHeader storage)) * 1024 \<le> length storage"
    and "0 < V6BlockCount (readHeader storage) \<Longrightarrow>
           sharedBase m' v6LPM = unat (V6BlocksOffset (readHeader storage))
           \<and> unat (V6BlocksOffset (readHeader storage))
               + unat (V6BlockCount (readHeader storage)) * 1024 \<le> length storage"
    and "dynamic m' v4LPM = (if 0 < V4BlockCount (readHeader storage) then [] else [\<lambda>i. 0])"
    and "dynamic m' v6LPM = (if 0 < V6BlockCount (readHeader storage) then [] else [\<lambda>i. 0])"
    and "sharedValuesSlotSize m' = unat (ValueSlotSize (readHeader storage))"
    and "sharedValueCount m' = unat (ValueCount (readHeader storage))"
    and "revValues m' = []"
    and "0 < ValueCount (readHeader storage) \<and> 0 < ValueSlotSize (readHeader storage) \<Longrightarrow>
           valuesBase m' = unat (ValuesOffset (readHeader storage))
           \<and> valuesLen m' = nat (int64 (uint (ValuesOffset (readHeader storage))
                 + int64 (uint (ValueCount (readHeader storage)) * uint (ValueSlotSize (readHeader storage)))))
               - unat (ValuesOffset (readHeader storage))"
    and "\<not> (0 < ValueCount (readHeader storage) \<and> 0 < ValueSlotSize (readHeader storage)) \<Longrightarrow>
           valuesLen m' = 0"
proof -
  note a = assms[unfolded NewWithSharedStorage_def Let_def]
  show "backing m' = (\<lambda>a. (storage @ spare) ! a)"
    using a by (auto split: if_splits)
  show "sharedCount m' v4LPM = unat (V4BlockCount (readHeader storage))"
    using a by (auto split: if_splits)
  show "sharedCount m' v6LPM = unat (V6BlockCount (readHeader storage))"
    using a by (auto split: if_splits)
  show "0 < V4BlockCount (readHeader storage) \<Longrightarrow>
           sharedBase m' v4LPM = unat (V4BlocksOffset (readHeader storage))
           \<and> unat (V4BlocksOffset (readHeader storage))
               + unat (V4BlockCount (readHeader storage)) * 1024 \<le> length storage"
    using a by (auto simp add: blockSize_def split: if_splits)
  show "0 < V6BlockCount (readHeader storage) \<Longrightarrow>
           sharedBase m' v6LPM = unat (V6BlocksOffset (readHeader storage))
           \<and> unat (V6BlocksOffset (readHeader storage))
               + unat (V6BlockCount (readHeader storage)) * 1024 \<le> length storage"
    using a by (auto simp add: blockSize_def split: if_splits)
  show "dynamic m' v4LPM = (if 0 < V4BlockCount (readHeader storage) then [] else [\<lambda>i. 0])"
    using a by (auto split: if_splits)
  show "dynamic m' v6LPM = (if 0 < V6BlockCount (readHeader storage) then [] else [\<lambda>i. 0])"
    using a by (auto split: if_splits)
  show "sharedValuesSlotSize m' = unat (ValueSlotSize (readHeader storage))"
    using a by (auto split: if_splits)
  show "sharedValueCount m' = unat (ValueCount (readHeader storage))"
    using a by (auto split: if_splits)
  show "revValues m' = []"
    using a by (auto split: if_splits)
  show "0 < ValueCount (readHeader storage) \<and> 0 < ValueSlotSize (readHeader storage) \<Longrightarrow>
           valuesBase m' = unat (ValuesOffset (readHeader storage))
           \<and> valuesLen m' = nat (int64 (uint (ValuesOffset (readHeader storage))
                 + int64 (uint (ValueCount (readHeader storage)) * uint (ValueSlotSize (readHeader storage)))))
               - unat (ValuesOffset (readHeader storage))"
    using a by (auto split: if_splits)
  show "\<not> (0 < ValueCount (readHeader storage) \<and> 0 < ValueSlotSize (readHeader storage)) \<Longrightarrow>
           valuesLen m' = 0"
    using a by (auto split: if_splits)
qed

lemma load_packed:
  fixes bs4 bs6 :: "LPMBlock list" and vals :: "u8 list" and n slot :: nat
  defines "storage \<equiv> headerBytes (packedHeader (length bs4) (length bs6) n slot)
       @ concat (map blockBytes bs4) @ concat (map blockBytes bs6) @ vals"
  assumes lv: "length vals = n * slot" and ne: "bs4 \<noteq> []" "bs6 \<noteq> []"
    and slot: "0 < slot" "slot \<le> 256"
    and small: "length storage < 2 ^ 32"
  shows "\<exists>m'. NewWithSharedStorage storage spare = Ok m' \<and> blocks m' v4LPM = bs4 \<and> blocks m' v6LPM = bs6
          \<and> sharedValues m' = vals \<and> sharedValuesSlotSize m' = slot \<and> sharedValueCount m' = n
          \<and> revValues m' = []"
proof -
  define h where "h = packedHeader (length bs4) (length bs6) n slot"
  define B4 where "B4 = concat (map blockBytes bs4)"
  define B6 where "B6 = concat (map blockBytes bs6)"
  have st: "storage = headerBytes h @ B4 @ B6 @ vals"
    by (simp add: storage_def h_def B4_def B6_def)
  have l4: "length B4 = 1024 * length bs4" unfolding B4_def
    by (rule concat_uniform_length) simp
  have l6: "length B6 = 1024 * length bs6" unfolding B6_def
    by (rule concat_uniform_length) simp
  have len: "length storage = 36 + 1024 * length bs4 + 1024 * length bs6 + n * slot"
    by (simp add: st l4 l6 lv)
  have rh: "readHeader storage = h" unfolding st by (rule readHeader_headerBytes)
  have ns: "n \<le> n * slot" using slot by simp
  have tot: "36 + 1024 * length bs4 + 1024 * length bs6 + n * slot < 2 ^ 32"
    using small len by simp
  have tot': "36 + 1024 * length bs4 + 1024 * length bs6 + n * slot < 4294967296"
    using tot by simp
  have b': "length bs4 < 4294967296" "length bs6 < 4294967296" "n < 4294967296" "slot < 4294967296"
    "36 + 1024 * length bs4 < 4294967296" "36 + 1024 * length bs4 + 1024 * length bs6 < 4294967296"
    using tot' ns slot(2) by linarith+
  have b: "length bs4 < 2 ^ 32" "length bs6 < 2 ^ 32" "n < 2 ^ 32" "slot < 2 ^ 32"
    "36 + 1024 * length bs4 < 2 ^ 32" "36 + 1024 * length bs4 + 1024 * length bs6 < 2 ^ 32"
    using b' by simp_all
  have sel: "V4BlockCount h = of_nat (length bs4)" "V6BlockCount h = of_nat (length bs6)"
    "ValueCount h = of_nat n" "ValueSlotSize h = of_nat slot"
    "V4BlocksOffset h = of_nat headerSize"
    "V6BlocksOffset h = of_nat (headerSize + length bs4 * (blockSize * 4))"
    "ValuesOffset h = of_nat (headerSize + length bs4 * (blockSize * 4) + length bs6 * (blockSize * 4))"
    by (simp_all only: h_def packedHeader_def StorageHeader.select_convs)
  have u: "unat (V4BlockCount h) = length bs4" "unat (V6BlockCount h) = length bs6"
    "unat (ValueCount h) = n" "unat (ValueSlotSize h) = slot"
    "unat (V4BlocksOffset h) = 36" "unat (V6BlocksOffset h) = 36 + 1024 * length bs4"
    "unat (ValuesOffset h) = 36 + 1024 * length bs4 + 1024 * length bs6"
    using b'
    by (auto intro!: unat_of_nat32_eq[OF sel(1)] unat_of_nat32_eq[OF sel(2)] unat_of_nat32_eq[OF sel(3)]
        unat_of_nat32_eq[OF sel(4)] unat_of_nat32_eq[OF sel(5)] unat_of_nat32_eq[OF sel(6)]
        unat_of_nat32_eq[OF sel(7)] simp add: headerSize_def blockSize_def)
  have z: "0 < V4BlockCount h" "0 < V6BlockCount h" "0 < ValueSlotSize h"
    "(0 < ValueCount h) = (0 < n)"
    using u(1-4) ne slot(1) by (simp_all add: word_less_nat_alt)
  have mv: "Magic h = magicNumber" "Version h = currentVersion"
    by (simp_all add: h_def packedHeader_def)
  have "unat (ValuesOffset h) + unat (ValueCount h) * unat (ValueSlotSize h) = length storage"
    by (simp add: u len)
  moreover have "length storage < 2 ^ 63" using small by simp
  ultimately have ve: "int64 (uint (ValuesOffset h) + int64 (uint (ValueCount h) * uint (ValueSlotSize h)))
      = int (length storage)"
    using valuesEnd_exact[of "ValuesOffset h" "ValueCount h" "ValueSlotSize h"] by simp
  have off_le: "uint (ValuesOffset h) \<le> int (length storage)"
    using u(7) len by (simp add: uint_nat)
  have s4: "map (\<lambda>i. blockAt storage (36 + i * 1024)) [0..<length bs4] = bs4"
    using map_blockAt_blocks[of "headerBytes h" bs4 "B6 @ vals"]
    by (simp add: st B4_def)
  have s6: "map (\<lambda>i. blockAt storage (36 + 1024 * length bs4 + i * 1024)) [0..<length bs6] = bs6"
    using map_blockAt_blocks[of "headerBytes h @ B4" bs6 vals]
    by (simp add: st B6_def l4)
  have sv: "take (length storage - (36 + 1024 * length bs4 + 1024 * length bs6))
              (drop (36 + 1024 * length bs4 + 1024 * length bs6) storage) = vals"
    by (simp add: st l4 l6 lv)
  have v0: "n = 0 \<Longrightarrow> vals = []" using lv by simp
  have c: "\<not> length storage < 36" "\<not> length storage < 36 + length bs4 * 1024"
    "\<not> length storage < 36 + 1024 * length bs4 + length bs6 * 1024"
    using len by simp_all
  have c4: "length vals \<le> length storage - (36 + 1024 * length bs4 + 1024 * length bs6)"
    using len lv by simp
  have "\<exists>m'. NewWithSharedStorage storage spare = Ok m'"
    unfolding NewWithSharedStorage_def Let_def rh ve
    using c c4 off_le by (simp add: headerSize_def mv u z blockSize_def)
  then obtain m' where ok: "NewWithSharedStorage storage spare = Ok m'" by blast
  note v = load_views[OF ok, unfolded rh ve]
  have base: "sharedBase m' v4LPM = 36" "sharedBase m' v6LPM = 36 + 1024 * length bs4"
    and cnt: "sharedCount m' v4LPM = length bs4" "sharedCount m' v6LPM = length bs6"
    and dyn: "dynamic m' v4LPM = []" "dynamic m' v6LPM = []"
    using v(2-7) z u by simp_all
  have bk: "backing m' = (\<lambda>a. (storage @ spare) ! a)" by (rule v(1))
  have "loadBlock (backing m') (36 + i * 1024) = blockAt storage (36 + i * 1024)"
    if "i < length bs4" for i
  proof -
    have "36 + i * 1024 + 1024 \<le> length storage" using that len by simp
    then show ?thesis unfolding bk loadBlock_nth by (rule blockAt_append_left)
  qed
  then have "map (\<lambda>i. loadBlock (backing m') (36 + i * 1024)) [0..<length bs4]
      = map (\<lambda>i. blockAt storage (36 + i * 1024)) [0..<length bs4]"
    by (intro map_cong[OF refl]) simp
  then have sh4: "shared m' v4LPM = bs4"
    using s4 by (simp add: shared_def base cnt blockSize_def)
  have "loadBlock (backing m') (36 + 1024 * length bs4 + i * 1024)
      = blockAt storage (36 + 1024 * length bs4 + i * 1024)"
    if "i < length bs6" for i
  proof -
    have "36 + 1024 * length bs4 + i * 1024 + 1024 \<le> length storage" using that len by simp
    then show ?thesis unfolding bk loadBlock_nth by (rule blockAt_append_left)
  qed
  then have "map (\<lambda>i. loadBlock (backing m') (36 + 1024 * length bs4 + i * 1024)) [0..<length bs6]
      = map (\<lambda>i. blockAt storage (36 + 1024 * length bs4 + i * 1024)) [0..<length bs6]"
    by (intro map_cong[OF refl]) simp
  then have sh6: "shared m' v6LPM = bs6"
    using s6 by (simp add: shared_def base cnt blockSize_def)
  have vals: "sharedValues m' = vals"
  proof (cases "0 < n")
    case True
    then have vb: "valuesBase m' = 36 + 1024 * length bs4 + 1024 * length bs6"
      and vl: "valuesLen m' = length storage - (36 + 1024 * length bs4 + 1024 * length bs6)"
      using v(11) z u by simp_all
    have "map (\<lambda>a. (storage @ spare) ! a)
            [36 + 1024 * length bs4 + 1024 * length bs6 ..<
             36 + 1024 * length bs4 + 1024 * length bs6
               + (length storage - (36 + 1024 * length bs4 + 1024 * length bs6))]
        = take (length storage - (36 + 1024 * length bs4 + 1024 * length bs6))
            (drop (36 + 1024 * length bs4 + 1024 * length bs6) storage)"
      by (rule map_nth_append_drop) (use len in simp)
    then show ?thesis unfolding sharedValues_def vb vl bk sv .
  next
    case False
    then have "valuesLen m' = 0" using v(12) z by simp
    then show ?thesis using False v0 by (simp add: sharedValues_def)
  qed
  show ?thesis
    using ok sh4 sh6 vals v(8-10) u dyn by (simp add: blocks_def)
qed


lemma pack_load_roundtrip:
  assumes sc: "sharedValueCount m = 0"
    and root: "\<And>p. blocks m p \<noteq> []"
    and le: "\<And>v. v \<in> set (revValues m) \<Longrightarrow> length v \<le> 255"
  shows "\<exists>storage. PackToSharedStorage m = Ok storage
          \<and> length storage \<le> 36 + 1024 * length (blocks m v4LPM) + 1024 * length (blocks m v6LPM)
                               + 256 * length (revValues m)
          \<and> (length storage < 2 ^ 32 \<longrightarrow>
               (\<exists>m'. NewWithSharedStorage storage spare = Ok m'
                  \<and> (\<forall>a. Lookup m' a = map_option stripEmpty (Lookup m a))))"
proof -
  from PackToSharedStorage_dynamic[OF sc le]
  obtain mx where mx: "mx \<le> 255" "\<forall>v \<in> set (revValues m). length v \<le> mx"
    and pk: "PackToSharedStorage m =
              Ok (headerBytes (packedHeader (length (blocks m v4LPM)) (length (blocks m v6LPM))
                                 (length (revValues m)) (mx + 1))
                  @ concat (map blockBytes (blocks m v4LPM))
                  @ concat (map blockBytes (blocks m v6LPM))
                  @ dynamicSlots (mx + 1) (revValues m))" (is "_ = Ok ?st")
    by blast
  have lt: "\<And>v. v \<in> set (revValues m) \<Longrightarrow> length v < mx + 1"
    using mx(2) by (simp add: less_Suc_eq_le)
  have lv: "length (dynamicSlots (mx + 1) (revValues m)) = length (revValues m) * (mx + 1)"
    using length_dynamicSlots[of "revValues m" "mx + 1", OF lt] by (simp add: mult.commute)
  have l4: "length (concat (map blockBytes (blocks m v4LPM))) = 1024 * length (blocks m v4LPM)"
    by (rule concat_uniform_length) simp
  have l6: "length (concat (map blockBytes (blocks m v6LPM))) = 1024 * length (blocks m v6LPM)"
    by (rule concat_uniform_length) simp
  have ineq: "length (revValues m) * (mx + 1) \<le> 256 * length (revValues m)"
    using mx(1) mult_le_mono2[of "mx + 1" 256 "length (revValues m)"] by (simp add: mult.commute)
  have e: "length ?st = 36 + (1024 * length (blocks m v4LPM) + (1024 * length (blocks m v6LPM)
      + length (dynamicSlots (mx + 1) (revValues m))))"
    by (simp only: length_append length_headerBytes l4 l6)
  have len: "length ?st \<le> 36 + 1024 * length (blocks m v4LPM) + 1024 * length (blocks m v6LPM)
                               + 256 * length (revValues m)"
    unfolding e lv using ineq by linarith
  have "\<exists>m'. NewWithSharedStorage ?st spare = Ok m'
                  \<and> (\<forall>a. Lookup m' a = map_option stripEmpty (Lookup m a))"
    if small: "length ?st < 2 ^ 32"
  proof -
    from load_packed[OF lv root[of v4LPM] root[of v6LPM] _ _ small, where spare = spare] mx(1)
    obtain m' where m': "NewWithSharedStorage ?st spare = Ok m'" "blocks m' v4LPM = blocks m v4LPM"
      "blocks m' v6LPM = blocks m v6LPM" "sharedValues m' = dynamicSlots (mx + 1) (revValues m)"
      "sharedValuesSlotSize m' = mx + 1" "sharedValueCount m' = length (revValues m)"
      "revValues m' = []"
      by auto
    have bl: "blocks m' pr = blocks m pr" for pr
      using m'(2,3) by (cases pr) simp_all
    have gv: "getValueByIndex m' i = stripEmpty (getValueByIndex m i)" for i
    proof -
      have "getValueByIndex m' i = (if i < length (revValues m)
          then stripEmpty (revValues m ! i, True) else ('''', False))"
        by (rule getValueByIndex_packed[OF m'(4-7) lt le])
      then show ?thesis
        by (simp add: getValueByIndex_dynamic[OF sc] stripEmpty_def)
    qed
    have "Lookup m' a = map_option stripEmpty (Lookup m a)" for a
      unfolding Lookup_def by (rule LookupLoop_strip[OF bl gv])
    with m'(1) show ?thesis by blast
  qed
  with pk len show ?thesis by blast
qed


lemma reachable_root: "reachable m \<Longrightarrow> blocks m p \<noteq> []"
proof (induction arbitrary: p rule: reachable.induct)
  case init
  show ?case by (simp add: blocks_def New_def)
next
  case (step m net val m')
  obtain m1 vi where av: "addValue m val = (m1, vi)" by (cases "addValue m val")
  note f = Insert_frame[OF step(4) av]
  show ?case
  proof (cases "p = family (Prefix_Addr net)")
    case True
    then show ?thesis using f(3) step.IH[of p] by auto
  next
    case False
    then show ?thesis
      using untouched_blocks[OF f(2) reachable_no_shared(1)[OF step(1)], of p] step.IH[of p] by simp
  qed
qed

lemma LookupTerminal_LookupLoop:
  "LookupTerminal m pr b bytes = Some w
     \<Longrightarrow> LookupLoop m pr b bytes = Some (getValueByIndex m (fst (decodeValue w)))"
  by (induction bytes arbitrary: b) (auto split: option.splits if_splits)

lemma getValueByIndex_empty_slot:
  assumes "i < sharedValueCount m" "sharedValues m ! (i * sharedValuesSlotSize m) = 0"
  shows "getValueByIndex m i = ('''', False)"
  using assms by (simp add: getValueByIndex_def Let_def)


section \<open>Pack and load (C4, C9)\<close>

lemma emptyValue_trie_Insert:
  "Insert New (PrefixFrom (Addr4 [10, 0, 0, 0]) 8) '''' = Some emptyValue_trie"
proof -
  have "Insert New (PrefixFrom (Addr4 [10, 0, 0, 0]) 8) '''' \<noteq> None" by code_simp
  then show ?thesis by (auto simp add: emptyValue_trie_def)
qed

lemma emptyValue_trie_reachable: "reachable emptyValue_trie"
  by (rule reachable.step[OF reachable.init _ _ emptyValue_trie_Insert]) simp_all

lemma emptyValue_trie_facts:
  "revValues emptyValue_trie = ['''']"
  "length (blocks emptyValue_trie v4LPM) = 1" "length (blocks emptyValue_trie v6LPM) = 1"
  "Lookup emptyValue_trie (Addr4 [10, 0, 0, 1]) = Some ('''', True)"
  unfolding emptyValue_trie_def blocks_def by code_simp+




text \<open>
  C9: when the walk of \<open>Lookup\<close> ends at a terminal slot (\<open>LookupTerminal\<close>) whose value
  index lies in the shared tier and the length byte of that value slot is 0, \<open>Lookup\<close>
  returns \<open>("", false)\<close>; and hence, for a trie built from \<open>New\<close> by \<open>Insert\<close> calls with
  values of at most 255 bytes, an address that \<open>Lookup\<close> reports as found with the empty
  string is reported as not found by the trie that \<open>NewWithSharedStorage\<close> makes of the
  packed image.
\<close>

theorem C9_empty_value_not_found_after_load:
  "(LookupTerminal m (if Is6 a then v6LPM else v4LPM) 0 (AsSlice a) = Some w
      \<longrightarrow> fst (decodeValue w) < sharedValueCount m
      \<longrightarrow> sharedValues m ! (fst (decodeValue w) * sharedValuesSlotSize m) = 0
      \<longrightarrow> Lookup m a = Some ('''', False))
   \<and> (reachable T \<longrightarrow> (\<forall>v \<in> set (revValues T). length v \<le> 255)
      \<longrightarrow> Lookup T a = Some ('''', True)
      \<longrightarrow> (\<exists>storage. PackToSharedStorage T = Ok storage
             \<and> (length storage < 2 ^ 32 \<longrightarrow>
                  (\<exists>T'. NewWithSharedStorage storage spare = Ok T' \<and> Lookup T' a = Some ('''', False)))))"
proof (intro conjI impI)
  assume "LookupTerminal m (if Is6 a then v6LPM else v4LPM) 0 (AsSlice a) = Some w"
    and "fst (decodeValue w) < sharedValueCount m"
    and "sharedValues m ! (fst (decodeValue w) * sharedValuesSlotSize m) = 0"
  then show "Lookup m a = Some ('''', False)"
    using LookupTerminal_LookupLoop[of m "if Is6 a then v6LPM else v4LPM" 0 "AsSlice a" w]
      getValueByIndex_empty_slot[of "fst (decodeValue w)" m]
    by (simp add: Lookup_def)
next
  assume r: "reachable T" and le: "\<forall>v \<in> set (revValues T). length v \<le> 255"
    and lk: "Lookup T a = Some ('''', True)"
  have sc: "sharedValueCount T = 0" using reachable_values[OF r] by simp
  from pack_load_roundtrip[OF sc reachable_root[OF r], where spare = spare] le
  obtain storage where st: "PackToSharedStorage T = Ok storage"
    "length storage < 2 ^ 32 \<longrightarrow>
       (\<exists>T'. NewWithSharedStorage storage spare = Ok T'
          \<and> (\<forall>a. Lookup T' a = map_option stripEmpty (Lookup T a)))"
    by auto
  show "\<exists>storage. PackToSharedStorage T = Ok storage
             \<and> (length storage < 2 ^ 32 \<longrightarrow>
                  (\<exists>T'. NewWithSharedStorage storage spare = Ok T' \<and> Lookup T' a = Some ('''', False)))"
    using st lk by (auto simp add: stripEmpty_def)
qed

text \<open>
  The theorem of C9 at the image that holds one IPv4 block of terminals for value 0 and one
  value slot with length byte 0, and at the trie that binds \<open>10.0.0.0/8\<close> to the empty
  string.
\<close>

theorem C9_witness:
  "LookupTerminal (loaded (NewWithSharedStorage emptyString_image [])) v4LPM 0 [10, 0, 0, 1]
     = Some 0x01000000
   \<and> fst (decodeValue 0x01000000) < sharedValueCount (loaded (NewWithSharedStorage emptyString_image []))
   \<and> sharedValues (loaded (NewWithSharedStorage emptyString_image []))
        ! (fst (decodeValue 0x01000000)
            * sharedValuesSlotSize (loaded (NewWithSharedStorage emptyString_image []))) = 0
   \<and> Lookup (loaded (NewWithSharedStorage emptyString_image [])) (Addr4 [10, 0, 0, 1]) = Some ('''', False)
   \<and> reachable emptyValue_trie
   \<and> revValues emptyValue_trie = ['''']
   \<and> Lookup emptyValue_trie (Addr4 [10, 0, 0, 1]) = Some ('''', True)
   \<and> (case PackToSharedStorage emptyValue_trie of
        Ok storage \<Rightarrow> length storage < 2 ^ 32
          \<and> (case NewWithSharedStorage storage [] of
                Ok T' \<Rightarrow> Lookup T' (Addr4 [10, 0, 0, 1]) = Some ('''', False)
              | _ \<Rightarrow> False)
      | _ \<Rightarrow> False)"
proof -
  let ?m = "loaded (NewWithSharedStorage emptyString_image [])"
  let ?a = "Addr4 [10, 0, 0, 1]"
  have "LookupTerminal ?m (if Is6 ?a then v6LPM else v4LPM) 0 (AsSlice ?a) = Some 0x01000000
      \<and> fst (decodeValue 0x01000000) < sharedValueCount ?m
      \<and> sharedValues ?m ! (fst (decodeValue 0x01000000) * sharedValuesSlotSize ?m) = 0"
    by code_simp
  then have t: "LookupTerminal ?m (if Is6 ?a then v6LPM else v4LPM) 0 (AsSlice ?a) = Some 0x01000000"
    and i: "fst (decodeValue 0x01000000) < sharedValueCount ?m"
    and z: "sharedValues ?m ! (fst (decodeValue 0x01000000) * sharedValuesSlotSize ?m) = 0"
    by blast+
  note r = emptyValue_trie_reachable
  have le: "\<forall>v \<in> set (revValues emptyValue_trie). length v \<le> 255"
    by (simp add: emptyValue_trie_facts)
  note lk = emptyValue_trie_facts(4)
  note main = C9_empty_value_not_found_after_load[of ?m ?a "0x01000000" emptyValue_trie "[]"]
  from main t i z have l1: "Lookup ?m ?a = Some ('''', False)" by blast
  from main r le lk
  obtain storage where st: "PackToSharedStorage emptyValue_trie = Ok storage"
    "length storage < 2 ^ 32 \<longrightarrow>
       (\<exists>T'. NewWithSharedStorage storage [] = Ok T' \<and> Lookup T' ?a = Some ('''', False))"
    by blast
  have sc: "sharedValueCount emptyValue_trie = 0" using reachable_values[OF r] by simp
  from pack_load_roundtrip[OF sc reachable_root[OF r], where spare = "[]"] emptyValue_trie_facts(1) st(1)
  have "length storage \<le> 36 + 1024 * length (blocks emptyValue_trie v4LPM)
        + 1024 * length (blocks emptyValue_trie v6LPM) + 256 * length (revValues emptyValue_trie)"
    by auto
  then have small: "length storage < 2 ^ 32" by (simp add: emptyValue_trie_facts)
  with st(2) obtain T' where "NewWithSharedStorage storage [] = Ok T'" "Lookup T' ?a = Some ('''', False)"
    by blast
  with st(1) small t i z l1 r emptyValue_trie_facts(1) lk show ?thesis by simp
qed

section \<open>Lookup after insert, on the path of the prefix (C3)\<close>

lemma setValue_defined:
  "b < length (blocks m pr) \<Longrightarrow> \<exists>m'. setValue m pr b s v = Some m'"
  using putBlockRef_defined[of b m pr] by (simp add: setValue_putBlockRef)

lemma getValue_putBlockRef:
  assumes "putBlockRef m pr b blk = Some m'"
  shows "getValue m' pr b0 s0 = (if b0 = b then Some (blk s0) else getValue m pr b0 s0)"
  using putBlockRef_blocks(1,2)[OF assms] by (simp add: getValue_blocks)

lemma getValue_setValue:
  assumes "setValue m pr b s v = Some m'"
  shows "getValue m' pr b0 s0 = (if b0 = b \<and> s0 = s then Some v else getValue m pr b0 s0)"
  using setValue_blocks(1,2)[OF assms] by (auto simp add: getValue_blocks nth_list_update)


lemma isBlockRef_nonzero: "isBlockRef r \<Longrightarrow> \<not> isInvalid r"
  by (auto simp add: isInvalid_def)

text \<open>A slot that holds the new terminal, or a block reference, survives a step of the propagation.\<close>

lemma propagateStep_stable:
  assumes st: "propagateStep m pr b nv pl s = Some m'"
    and g: "getValue m pr b0 s0 = Some r" and r: "r = nv \<and> \<not> isInvalid nv \<or> isBlockRef r"
  shows "getValue m' pr b0 s0 = Some r"
  using st
proof (cases rule: propagateStep_cases)
  case (ref cur inner)
  from ref(3) have inner: "inner = blocks m pr ! decodeBlockRef cur" "decodeBlockRef cur < length (blocks m pr)"
    by (simp_all add: getBlockRef_blocks split: if_splits)
  show ?thesis
  proof (cases "b0 = decodeBlockRef cur")
    case True
    then have "inner s0 = r" using g inner by (simp add: getValue_blocks)
    moreover have "\<not> isInvalid r" using r isBlockRef_nonzero by auto
    ultimately show ?thesis using True by (simp add: getValue_putBlockRef[OF ref(4)])
  next
    case False
    then show ?thesis using g by (simp add: getValue_putBlockRef[OF ref(4)])
  qed
next
  case (set cur)
  show ?thesis
  proof (cases "b0 = b \<and> s0 = s")
    case True
    with g set(1) have "cur = r" by simp
    with set(2) r have "r = nv" by auto
    then show ?thesis using True getValue_setValue[OF set(4), of b0 s0] by simp
  next
    case False
    then show ?thesis using g getValue_setValue[OF set(4), of b0 s0] by auto
  qed
next
  case (keep cur)
  then show ?thesis using g by simp
qed

lemma propagateStep_total:
  assumes "block_refs_ok m pr" "b < length (blocks m pr)"
  shows "\<exists>m'. propagateStep m pr b nv pl s = Some m'"
proof -
  let ?cur = "(blocks m pr ! b) s"
  have g: "getValue m pr b s = Some ?cur" using assms(2) by (simp add: getValue_blocks)
  show ?thesis
  proof (cases "isBlockRef ?cur")
    case True
    have "?cur \<in> slot_words m pr" using g by (rule getValue_in_slot_words)
    with assms(1) True have j: "decodeBlockRef ?cur < length (blocks m pr)"
      by (simp add: block_refs_ok_def)
    then obtain m' where "putBlockRef m pr (decodeBlockRef ?cur)
        (\<lambda>idx. if isInvalid ((blocks m pr ! decodeBlockRef ?cur) idx) then nv
                else (blocks m pr ! decodeBlockRef ?cur) idx) = Some m'"
      using putBlockRef_defined by blast
    then show ?thesis using g True j
      by (simp add: propagateStep_def getBlockRef_blocks)
  next
    case False
    from setValue_defined[OF assms(2)] obtain m' where "setValue m pr b s nv = Some m'" by blast
    then show ?thesis using g False
      by (simp add: propagateStep_def Let_def)
  qed
qed

lemma propagateStep_refs_ok:
  assumes "propagateStep m pr b nv pl s = Some m'" "block_refs_ok m pr" "\<not> isBlockRef nv"
  shows "block_refs_ok m' pr"
  using propagateStep_frame(3,5)[OF assms(1)] assms(2,3)
  by (auto simp add: block_refs_ok_def)

lemma propagateLoop_total_stable:
  assumes "block_refs_ok m pr" "b < length (blocks m pr)" "\<not> isBlockRef nv" "\<not> isInvalid nv"
  shows "\<exists>m'. propagateLoop m pr b nv pl is = Some m'
           \<and> (\<forall>b0 s0 r. getValue m pr b0 s0 = Some r \<longrightarrow> r = nv \<or> isBlockRef r
                  \<longrightarrow> getValue m' pr b0 s0 = Some r)"
  using assms(1,2)
proof (induction "is" arbitrary: m)
  case Nil
  then show ?case by simp
next
  case (Cons i "is")
  from propagateStep_total[OF Cons.prems] obtain m1 where
    st: "propagateStep m pr b nv pl (of_nat i) = Some m1" by blast
  have ok1: "block_refs_ok m1 pr" by (rule propagateStep_refs_ok[OF st Cons.prems(1) assms(3)])
  have b1: "b < length (blocks m1 pr)" using propagateStep_frame(3)[OF st] Cons.prems(2) by simp
  from Cons.IH[OF ok1 b1] obtain m' where
    m': "propagateLoop m1 pr b nv pl is = Some m'"
    "\<forall>b0 s0 r. getValue m1 pr b0 s0 = Some r \<longrightarrow> r = nv \<or> isBlockRef r
                  \<longrightarrow> getValue m' pr b0 s0 = Some r" by blast
  have "getValue m' pr b0 s0 = Some r" if "getValue m pr b0 s0 = Some r" "r = nv \<or> isBlockRef r" for b0 s0 r
  proof -
    have "getValue m1 pr b0 s0 = Some r"
      using propagateStep_stable[OF st that(1)] that(2) assms(4) by blast
    with m'(2) that(2) show ?thesis by blast
  qed
  with st m'(1) show ?case by simp
qed


lemma InsertLoop_terminal:
  "(int idx + 1) * 8 - pl \<ge> 0 \<Longrightarrow>
     InsertLoop m pr vi pl b idx (x # rest)
       = propagateValue m pr b vi pl (x AND tailMask pl idx) ((x AND tailMask pl idx) OR NOT (tailMask pl idx))"
  by (simp add: Let_def tailMask_def)


lemma InsertLoop_create:
  "\<not> (int idx + 1) * 8 - pl \<ge> 0 \<Longrightarrow> getValue m pr b x = Some cur \<Longrightarrow> \<not> isBlockRef cur \<Longrightarrow>
   setValue m pr b x (encodeBlockRef (length (blocks m pr))) = Some m1 \<Longrightarrow>
     InsertLoop m pr vi pl b idx (x # rest)
       = InsertLoop (m1\<lparr> dynamic := (dynamic m1)(pr := dynamic m1 pr @ [blockWithValue cur]) \<rparr>)
           pr vi pl (length (blocks m pr)) (Suc idx) rest"
  by (simp add: Let_def total_blocks)

lemma blockWithValue_const: "blockWithValue w = (\<lambda>idx. w)"
  by (auto simp add: blockWithValue_def isInvalid_def)

lemma propagateStep_set:
  assumes "getValue m pr b s = Some w" "\<not> isBlockRef w" "isInvalid w \<or> snd (decodeValue w) \<le> pl"
  shows "propagateStep m pr b nv pl s = setValue m pr b s nv"
  using assms by (auto simp add: propagateStep_def Let_def)





lemma addValue_getValueByIndex:
  assumes av: "addValue m val = (m1, vi)" and vc: "values_consistent m"
  shows "getValueByIndex m1 vi = (val, True)" and "values_consistent m1"
proof -
  have "getValueByIndex m1 vi = (val, True) \<and> values_consistent m1"
  proof (cases rule: addValue_cases[of m val])
    case (old i)
    with av have e: "m1 = m" "vi = i" by simp_all
    from vc old(1) have i: "sharedValueCount m \<le> i" "i - sharedValueCount m < length (revValues m)"
      "revValues m ! (i - sharedValueCount m) = val"
      unfolding values_consistent_def by blast+
    then have "getValueByIndex m i = (val, True)"
      by (simp add: getValueByIndex_def Let_def)
    with vc e show ?thesis by simp
  next
    case new
    with av have m1: "m1 = m\<lparr> valuesMap := (valuesMap m)(val \<mapsto> valueCount m),
                              revValues := revValues m @ [val] \<rparr>" and vi: "vi = valueCount m"
      by auto
    have "getValueByIndex m1 vi = (val, True)"
      unfolding m1 vi by (simp add: getValueByIndex_def valueCount_def Let_def)
    moreover have "values_consistent m1"
      unfolding values_consistent_def
    proof (intro allI impI)
      fix v i assume vi': "valuesMap m1 v = Some i"
      show "sharedValueCount m1 \<le> i \<and> i - sharedValueCount m1 < length (revValues m1)
          \<and> revValues m1 ! (i - sharedValueCount m1) = v"
      proof (cases "v = val")
        case True
        with vi' have "i = valueCount m" unfolding m1 by simp
        then show ?thesis unfolding m1 using True by (simp add: valueCount_def)
      next
        case False
        with vi' have "valuesMap m v = Some i" unfolding m1 by simp
        with vc have "sharedValueCount m \<le> i" "i - sharedValueCount m < length (revValues m)"
          "revValues m ! (i - sharedValueCount m) = v"
          unfolding values_consistent_def by blast+
        then show ?thesis unfolding m1 by (simp add: nth_append)
      qed
    qed
    ultimately show ?thesis by simp
  qed
  then show "getValueByIndex m1 vi = (val, True)" and "values_consistent m1" by simp_all
qed

lemma values_consistent_valuePart:
  "valuePart m' = valuePart m \<Longrightarrow> values_consistent m' = values_consistent m"
  by (simp add: valuePart_def values_consistent_def)

lemma reachable_values_consistent: "reachable m \<Longrightarrow> values_consistent m"
proof (induction rule: reachable.induct)
  case init
  show ?case by (simp add: values_consistent_def New_def)
next
  case (step m net val m')
  obtain m1 vi where av: "addValue m val = (m1, vi)" by (cases "addValue m val")
  from addValue_getValueByIndex(2)[OF av step.IH]
    values_consistent_valuePart[OF Insert_frame(1)[OF step(4) av]]
  show ?case by simp
qed

lemma maskedBytes_length [simp]: "length (maskedBytes pl idx bytes) = length bytes"
  by (induction bytes arbitrary: idx) simp_all






text \<open>
  A trie beyond the capacity of the value index: 2^30 bindings of \<open>0.0.0.0/0\<close> to pairwise
  different values (\<open>valueName k\<close>, the four bytes of \<open>k\<close>), then one binding of \<open>::/128\<close>.
\<close>

section \<open>Referenced blocks beyond the capacity of the value index (C8)\<close>

lemma string_of_bytes_inj: "string_of_bytes xs = string_of_bytes ys \<Longrightarrow> xs = ys"
proof -
  have "inj (\<lambda>b::u8. char_of (unat b))"
  proof (rule injI)
    fix x y :: u8 assume "char_of (unat x) = char_of (unat y)"
    then have "of_char (char_of (unat x)) = (of_char (char_of (unat y)) :: nat)" by simp
    then have "unat x mod 256 = unat y mod 256" by (simp only: of_char_of)
    then show "x = y" using u8_bound[of x] u8_bound[of y] by (simp add: word_unat_eq_iff)
  qed
  then have "inj (map (\<lambda>b::u8. char_of (unat b)))" by simp
  then show "string_of_bytes xs = string_of_bytes ys \<Longrightarrow> xs = ys"
    unfolding string_of_bytes_def by (rule injD)
qed

lemma valueName_inj:
  assumes "valueName k = valueName k'" "k < 2 ^ 32" "k' < 2 ^ 32"
  shows "k = k'"
proof -
  from assms(1) have "le32 (of_nat k) = le32 (of_nat k')"
    unfolding valueName_def by (rule string_of_bytes_inj)
  then have "rd32 (le32 (of_nat k)) 0 = rd32 (le32 (of_nat k')) 0" by simp
  then have "(of_nat k :: u32) = of_nat k'" by (simp only: rd32_le32)
  then have "unat (of_nat k :: u32) = unat (of_nat k' :: u32)" by simp
  then show ?thesis using assms(2,3) by (simp add: unat_of_nat32)
qed

lemma InsertAll_snoc:
  "InsertAll m (xs @ [(net, val)])
     = (case InsertAll m xs of None \<Rightarrow> None | Some m' \<Rightarrow> Insert m' net val)"
  by (induction xs arbitrary: m) (auto split: option.splits)

lemma Insert_root_prefix:
  assumes r: "reachable m" and cap: "length (revValues m) < 2 ^ 30"
    and fresh: "v \<notin> set (revValues m)"
  shows "\<exists>m'. Insert m (PrefixFrom (Addr4 [0, 0, 0, 0]) 0) v = Some m'
           \<and> revValues m' = revValues m @ [v]
           \<and> blocks m' v6LPM = blocks m v6LPM"
proof -
  let ?net = "PrefixFrom (Addr4 [0, 0, 0, 0]) 0"
  from reachable_values[OF r] have vm: "valuesMap_ok m" and sc: "sharedValueCount m = 0" by simp_all
  have "valuesMap m v = None"
  proof (cases "valuesMap m v")
    case (Some i)
    with reachable_values_consistent[OF r] have "i - sharedValueCount m < length (revValues m)"
      "revValues m ! (i - sharedValueCount m) = v"
      unfolding values_consistent_def by blast+
    then have "v \<in> set (revValues m)" using nth_mem by blast
    with fresh show ?thesis by simp
  qed simp
  then have av: "addValue m v = (m\<lparr> valuesMap := (valuesMap m)(v \<mapsto> length (revValues m)),
                                    revValues := revValues m @ [v] \<rparr>, length (revValues m))"
    (is "_ = (?m1, ?vi)")
    using sc by (simp add: addValue_def Let_def)
  note a = addValue_frame[OF av]
  have refs: "block_refs_ok ?m1 v4LPM"
    using reachable_block_refs[OF r, of v4LPM] cap a(1,7) by (simp add: block_refs_ok_def)
  have root: "0 < length (blocks ?m1 v4LPM)" using reachable_root[OF r, of v4LPM] a(1) by simp
  have nv: "\<not> isBlockRef (encodeValue ?vi 0)" "\<not> isInvalid (encodeValue ?vi 0)"
    using cap by (simp_all add: encodeValue_not_blockRef encodeValue_nonzero)
  from propagateLoop_total_stable[OF refs root nv]
  obtain m' where "propagateLoop ?m1 v4LPM 0 (encodeValue ?vi 0) 0
      [unat (0 AND tailMask 0 0) ..< Suc (unat ((0 AND tailMask 0 0) OR NOT (tailMask 0 0)))] = Some m'"
    by blast
  moreover have "InsertLoop ?m1 v4LPM ?vi 0 0 0 [0, 0, 0, 0]
      = propagateValue ?m1 v4LPM 0 ?vi 0 (0 AND tailMask 0 0) ((0 AND tailMask 0 0) OR NOT (tailMask 0 0))"
    by (rule InsertLoop_terminal) simp
  ultimately have "InsertLoop ?m1 v4LPM ?vi 0 0 0 [0, 0, 0, 0] = Some m'"
    by (simp only: propagateValue_def)
  then have ins: "Insert m ?net v = Some m'"
    using av by (simp add: Insert_def del: InsertLoop.simps)
  note f = Insert_frame[OF ins av]
  have "revValues m' = revValues m @ [v]" using f(1) by (simp add: valuePart_def)
  moreover have "blocks m' v6LPM = blocks m v6LPM"
    using untouched_blocks[OF f(2) reachable_no_shared(1)[OF r], of v6LPM] by (simp add: family_def)
  ultimately show ?thesis using ins by blast
qed

lemma manyValues_fill:
  "n \<le> 2 ^ 30 \<Longrightarrow> \<exists>m. InsertAll New (manyValues n) = Some m \<and> reachable m
      \<and> revValues m = map valueName [0..<n] \<and> blocks m v6LPM = [\<lambda>i. 0]"
proof (induction n)
  case 0
  show ?case by (simp add: manyValues_def reachable.init) (simp add: New_def blocks_def shared_def)
next
  case (Suc n)
  then obtain m where m: "InsertAll New (manyValues n) = Some m" "reachable m"
    "revValues m = map valueName [0..<n]" "blocks m v6LPM = [\<lambda>i. 0]" by auto
  have cap: "length (revValues m) < 2 ^ 30" using Suc.prems m(3) by simp
  have fresh: "valueName n \<notin> set (revValues m)"
  proof
    assume "valueName n \<in> set (revValues m)"
    then obtain k where k: "k < n" "valueName n = valueName k" using m(3) by auto
    have "n < 2 ^ 32" "k < 2 ^ 32" using Suc.prems k(1) by simp_all
    from valueName_inj[OF k(2) this] k(1) show False by simp
  qed
  from Insert_root_prefix[OF m(2) cap fresh]
  obtain m' where m': "Insert m (PrefixFrom (Addr4 [0, 0, 0, 0]) 0) (valueName n) = Some m'"
    "revValues m' = revValues m @ [valueName n]" "blocks m' v6LPM = blocks m v6LPM" by blast
  have "manyValues (Suc n) = manyValues n @ [(PrefixFrom (Addr4 [0, 0, 0, 0]) 0, valueName n)]"
    by (simp add: manyValues_def)
  then have "InsertAll New (manyValues (Suc n)) = Some m'"
    using m(1) m'(1) by (simp add: InsertAll_snoc)
  moreover have "reachable m'" by (rule reachable.step[OF m(2) _ _ m'(1)]) simp_all
  ultimately show ?case using m' m(3,4) by simp
qed

lemma InsertLoop_fresh_path:
  assumes "b < length (blocks m pr)" "blocks m pr ! b = (\<lambda>i. 0)" "bytes \<noteq> []"
    "pl = (int idx + int (length bytes)) * 8"
  shows "\<exists>m'. InsertLoop m pr vi pl b idx bytes = Some m'
           \<and> length (blocks m' pr) = length (blocks m pr) + length bytes - 1
           \<and> getValue m' pr (if length bytes = 1 then b else length (blocks m pr) + length bytes - 2)
                (last bytes) = Some (encodeValue vi pl)"
  using assms
proof (induction bytes arbitrary: m b idx)
  case Nil
  then show ?case by simp
next
  case (Cons x rest)
  have g: "getValue m pr b x = Some 0" using Cons.prems(1,2) by (simp add: getValue_blocks)
  show ?case
  proof (cases rest)
    case Nil
    have pl: "pl = (int idx + 1) * 8" using Cons.prems(4) Nil by simp
    have tm: "tailMask pl idx = 0xff" by (simp add: tailMask_def pl)
    have ff: "(0xff::u8) = - 1" by simp
    have ax: "x AND 0xff = x" unfolding ff by simp
    have ox: "x OR NOT 0xff = x" unfolding ff by simp
    from setValue_defined[OF Cons.prems(1)] obtain m' where
      sv: "setValue m pr b x (encodeValue vi pl) = Some m'" by blast
    have st: "propagateStep m pr b (encodeValue vi pl) pl x = Some m'"
      using propagateStep_set[OF g] sv by simp
    have t0: "(int idx + 1) * 8 - pl \<ge> 0" by (simp add: pl)
    have "InsertLoop m pr vi pl b idx [x] = propagateValue m pr b vi pl x x"
      using InsertLoop_terminal[OF t0, of m pr vi b x "[]"] unfolding tm ax ox .
    also have "\<dots> = propagateLoop m pr b (encodeValue vi pl) pl [unat x]"
      by (simp add: propagateValue_def)
    also have "\<dots> = Some m'" using st by simp
    finally have "InsertLoop m pr vi pl b idx [x] = Some m'" .
    moreover have "length (blocks m' pr) = length (blocks m pr)"
      using setValue_blocks(2)[OF sv] by simp
    moreover have "getValue m' pr b x = Some (encodeValue vi pl)"
      by (simp add: getValue_setValue[OF sv])
    ultimately show ?thesis using Nil by simp
  next
    case (Cons y rest')
    let ?n = "length (blocks m pr)"
    have neg: "\<not> (int idx + 1) * 8 - pl \<ge> 0" using Cons.prems(4) Cons by simp
    from setValue_defined[OF Cons.prems(1)] obtain m1 where
      sv: "setValue m pr b x (encodeBlockRef ?n) = Some m1" by blast
    let ?m2 = "m1\<lparr> dynamic := (dynamic m1)(pr := dynamic m1 pr @ [blockWithValue 0]) \<rparr>"
    have step: "InsertLoop m pr vi pl b idx (x # rest) = InsertLoop ?m2 pr vi pl ?n (Suc idx) rest"
      by (rule InsertLoop_create[OF neg g _ sv]) simp
    have l1: "length (blocks m1 pr) = ?n" using setValue_blocks(2)[OF sv] by simp
    have b2: "blocks ?m2 pr = blocks m1 pr @ [blockWithValue 0]" by (simp add: append_block_blocks)
    have p1: "?n < length (blocks ?m2 pr)" by (simp add: b2 l1)
    have "(blocks m1 pr @ [blockWithValue 0]) ! length (blocks m1 pr) = blockWithValue 0"
      by (rule nth_append_length)
    then have p2: "blocks ?m2 pr ! ?n = (\<lambda>i. 0)"
      unfolding b2 l1 by (simp add: blockWithValue_const)
    have p3: "rest \<noteq> []" using Cons by simp
    have p4: "pl = (int (Suc idx) + int (length rest)) * 8" using Cons.prems(4) by simp
    from Cons.IH[OF p1 p2 p3 p4]
    obtain m' where m': "InsertLoop ?m2 pr vi pl ?n (Suc idx) rest = Some m'"
      "length (blocks m' pr) = length (blocks ?m2 pr) + length rest - 1"
      "getValue m' pr (if length rest = 1 then ?n else length (blocks ?m2 pr) + length rest - 2)
                (last rest) = Some (encodeValue vi pl)" by blast
    have l2: "length (blocks ?m2 pr) = Suc ?n" by (simp add: b2 l1)
    have "(if length rest = 1 then ?n else length (blocks ?m2 pr) + length rest - 2)
        = ?n + length (x # rest) - 2"
      using p3 by (cases rest) (simp_all add: l2)
    with m' step l2 p3 show ?thesis using Cons by simp
  qed
qed

lemma spill_word:
  "encodeValue 1073741824 128 = 0xC1000000" "isBlockRef 0xC1000000"
  "decodeBlockRef 0xC1000000 = 16777216"
  by (simp_all add: encodeValue_def prefixLenShift_def isBlockRef_def blockRefMask_def
      decodeBlockRef_def blockIndexMask_def)

lemma addValue_fresh:
  assumes r: "reachable m" and fresh: "v \<notin> set (revValues m)"
  shows "addValue m v = (m\<lparr> valuesMap := (valuesMap m)(v \<mapsto> length (revValues m)),
                             revValues := revValues m @ [v] \<rparr>, length (revValues m))"
proof -
  from reachable_values[OF r] have sc: "sharedValueCount m = 0" by simp
  have "valuesMap m v = None"
  proof (cases "valuesMap m v")
    case (Some i)
    with reachable_values_consistent[OF r] have "i - sharedValueCount m < length (revValues m)"
      "revValues m ! (i - sharedValueCount m) = v"
      unfolding values_consistent_def by blast+
    then have "v \<in> set (revValues m)" using nth_mem by blast
    with fresh show ?thesis by simp
  qed simp
  then show ?thesis using sc by (simp add: addValue_def Let_def)
qed

lemma valueName_fresh:
  assumes "n < 2 ^ 32"
  shows "valueName n \<notin> set (map valueName [0..<n])"
proof
  assume "valueName n \<in> set (map valueName [0..<n])"
  then obtain k where k: "k < n" "valueName n = valueName k" by auto
  have "k < 2 ^ 32" using assms k(1) by simp
  from valueName_inj[OF k(2) assms this] k(1) show False by simp
qed

lemma spill_general:
  assumes n: "n \<le> 2 ^ 30"
  shows "\<exists>m m'. InsertAll New (manyValues n) = Some m
           \<and> Insert m (PrefixFrom (Addr6 (replicate 16 0)) 128) (valueName n) = Some m'
           \<and> reachable m' \<and> length (blocks m' v6LPM) = 16
           \<and> getValue m' v6LPM 15 0 = Some (encodeValue n 128)"
proof -
  let ?net = "PrefixFrom (Addr6 (replicate 16 0)) 128"
  from manyValues_fill[OF n] obtain m where m: "InsertAll New (manyValues n) = Some m"
    "reachable m" "revValues m = map valueName [0..<n]" "blocks m v6LPM = [\<lambda>i. 0]" by blast
  have n32: "n < 2 ^ 32" using n by simp
  have fresh: "valueName n \<notin> set (revValues m)"
    unfolding m(3) by (rule valueName_fresh[OF n32])
  have len: "length (revValues m) = n" by (simp add: m(3))
  have av: "addValue m (valueName n)
      = (m\<lparr> valuesMap := (valuesMap m)(valueName n \<mapsto> n),
             revValues := revValues m @ [valueName n] \<rparr>, n)" (is "_ = (?m1, _)")
    using addValue_fresh[OF m(2) fresh] unfolding len .
  note a = addValue_frame[OF av]
  have b1: "blocks ?m1 v6LPM = [\<lambda>i. 0]" using a(1) m(4) by simp
  have l16: "length (replicate 16 (0::u8)) = 16" by simp
  have p1: "0 < length (blocks ?m1 v6LPM)" unfolding b1 by simp
  have p2: "blocks ?m1 v6LPM ! 0 = (\<lambda>i. 0)" unfolding b1 by simp
  have p3: "replicate 16 (0::u8) \<noteq> []" by simp
  have p4: "(128::int) = (int 0 + int (length (replicate 16 (0::u8)))) * 8" by simp
  from InsertLoop_fresh_path[OF p1 p2 p3 p4, of n]
  obtain m' where m': "InsertLoop ?m1 v6LPM n 128 0 0 (replicate 16 0) = Some m'"
    "length (blocks m' v6LPM) = length (blocks ?m1 v6LPM) + length (replicate 16 (0::u8)) - 1"
    "getValue m' v6LPM (if length (replicate 16 (0::u8)) = 1 then 0
        else length (blocks ?m1 v6LPM) + length (replicate 16 (0::u8)) - 2)
        (last (replicate 16 0)) = Some (encodeValue n 128)"
    by blast
  have m2: "length (blocks m' v6LPM) = 16" using m'(2) unfolding b1 l16 by simp
  have "last (replicate 16 (0::u8)) = 0" by simp
  then have m3: "getValue m' v6LPM 15 0 = Some (encodeValue n 128)"
    using m'(3) unfolding b1 l16 by simp
  have ins: "Insert m ?net (valueName n) = Some m'"
    unfolding Insert_def av using m'(1) by (simp del: InsertLoop.simps)
  have r: "reachable m'" by (rule reachable.step[OF m(2) _ _ ins]) simp_all
  from m(1) ins r m2 m3 show ?thesis by blast
qed

text \<open>
  C8, as stated, fails: nothing bounds the number of values.  After 2^30 insertions of
  \<open>0.0.0.0/0\<close> with pairwise different values, the insertion of \<open>::/128\<close> with one more value
  stores, for value index 2^30 and prefix length 128, the word \<open>0xC1000000\<close> in slot 0 of
  block 15 of the IPv6 store; it reads as a reference to block 16777216, and the store has
  16 blocks.
\<close>

theorem C8_counterexample:
  "InsertAll New (manyValues 1073741824) = Some full_trie
   \<and> Insert full_trie (PrefixFrom (Addr6 (replicate 16 0)) 128) (valueName 1073741824) = Some spill_trie
   \<and> reachable spill_trie
   \<and> getValue spill_trie v6LPM 15 0 = Some 0xC1000000
   \<and> isBlockRef 0xC1000000
   \<and> length (shared spill_trie v6LPM) + length (dynamic spill_trie v6LPM) = 16
   \<and> decodeBlockRef 0xC1000000 = 16777216"
proof -
  have N: "(1073741824::nat) \<le> 2 ^ 30" by simp
  from spill_general[OF N] obtain m m' where m: "InsertAll New (manyValues 1073741824) = Some m"
    "Insert m (PrefixFrom (Addr6 (replicate 16 0)) 128) (valueName 1073741824) = Some m'"
    "reachable m'" "length (blocks m' v6LPM) = 16"
    "getValue m' v6LPM 15 0 = Some (encodeValue 1073741824 128)" by blast
  have full: "full_trie = m" unfolding full_trie_def m(1) by simp
  have spill: "spill_trie = m'" unfolding spill_trie_def full m(2) by simp
  have l: "length (shared m' v6LPM) + length (dynamic m' v6LPM) = 16"
    using m(4) by (simp only: total_blocks)
  from m(1,2,3) l m(5)[unfolded spill_word(1)] spill_word(2,3) show ?thesis
    unfolding full spill by blast
qed

end
